theory Spec2Isabelle
  imports Main "HOL-Library.Word"
begin

unbundle bit_operations_syntax

section \<open>Python values and control flow\<close>

text \<open>
  Python integers are unbounded and are modelled by \<^typ>\<open>int\<close>; \<open>a ^ b\<close> is \<open>XOR\<close>,
  \<open>a & b\<close> is \<open>AND\<close>, \<open>1 << k\<close> (for \<open>k \<ge> 0\<close>) is \<open>push_bit (nat k) 1\<close> and
  \<open>v >> 6\<close> is \<open>drop_bit 6 v\<close>. Every \<open>raise\<close> of the source is a value of the type
  \<open>error\<close>; the constructor records which \<open>raise\<close> statement it was, with the values
  that the message interpolates.
\<close>

datatype error =
    DimensionTooSmall int             \<comment> \<open>ValueError: Dimension must be >= 1\<close>
  | TransitionOutOfRange int int      \<comment> \<open>ValueError: Transition t out of range [0, d)\<close>
  | IdenticalVertices nat nat int     \<comment> \<open>ValueError: Consecutive vertices i and i+1 are identical\<close>
  | MultipleBits nat nat int int      \<comment> \<open>ValueError: Consecutive vertices differ in multiple bits\<close>
  | CannotExtend int                  \<comment> \<open>ValueError: Cannot extend snake with dimension d\<close>
  | SeedDimensionMismatch int int     \<comment> \<open>ValueError: Seed node dimension does not match\<close>
  | NegativeShift                     \<comment> \<open>ValueError: negative shift count (\<open>1 << k\<close> with \<open>k < 0\<close>)\<close>
  | VertexOutOfRange int int          \<comment> \<open>IndexError: Vertex v out of range [0, num_vertices)\<close>
  | ArrayIndexError                   \<comment> \<open>IndexError: array index out of range\<close>
  | OverflowError                     \<comment> \<open>OverflowError: cannot convert float infinity to integer\<close>
  | NaNToInteger                      \<comment> \<open>ValueError: cannot convert float NaN to integer\<close>

text \<open>The clause \<open>except ValueError\<close> catches exactly these.\<close>

fun is_ValueError :: "error \<Rightarrow> bool" where
  "is_ValueError (VertexOutOfRange _ _) = False"
| "is_ValueError ArrayIndexError = False"
| "is_ValueError OverflowError = False"
| "is_ValueError _ = True"

text \<open>
  \<open>for x in xs: body\<close> where the body updates loop-carried state and may raise:
  the first error ends the loop.
\<close>

fun for_each :: "'a list \<Rightarrow> ('a \<Rightarrow> 's \<Rightarrow> error + 's) \<Rightarrow> 's \<Rightarrow> error + 's" where
  "for_each [] body s = Inr s"
| "for_each (x # xs) body s =
     (case body x s of Inl e \<Rightarrow> Inl e | Inr s' \<Rightarrow> for_each xs body s')"

text \<open>
  \<open>for x in xs: body\<close> where the body may \<open>return\<close> from the enclosing function:
  \<open>Some r\<close> is the early return, \<open>None\<close> means that the loop ran to its end.
\<close>

fun for_return :: "'a list \<Rightarrow> ('a \<Rightarrow> 'r option) \<Rightarrow> 'r option" where
  "for_return [] body = None"
| "for_return (x # xs) body =
     (case body x of Some r \<Rightarrow> Some r | None \<Rightarrow> for_return xs body)"

text \<open>Sequencing of two computations that may raise.\<close>

definition and_then :: "error + 'a \<Rightarrow> ('a \<Rightarrow> error + 'b) \<Rightarrow> error + 'b" where
  "and_then m f = (case m of Inl e \<Rightarrow> Inl e | Inr x \<Rightarrow> f x)"

text \<open>\<open>bin(x).count('1')\<close>: the number of ones in the binary numeral of \<open>|x|\<close>.\<close>

fun count_ones_nat :: "nat \<Rightarrow> nat" where
  "count_ones_nat n = (if n = 0 then 0 else n mod 2 + count_ones_nat (n div 2))"

declare count_ones_nat.simps [simp del]

definition count_ones :: "int \<Rightarrow> nat" where
  "count_ones x = count_ones_nat (nat \<bar>x\<bar>)"

text \<open>\<open>x.bit_length()\<close>: the number of binary digits of \<open>|x|\<close>, 0 for 0.\<close>

fun bit_length_nat :: "nat \<Rightarrow> nat" where
  "bit_length_nat n = (if n = 0 then 0 else Suc (bit_length_nat (n div 2)))"

declare bit_length_nat.simps [simp del]

definition bit_length :: "int \<Rightarrow> int" where
  "bit_length x = int (bit_length_nat (nat \<bar>x\<bar>))"

section \<open>core/transitions.py\<close>

text \<open>
  \<open>vertex_to_transition\<close>: the loop \<open>for i in range(len(vertex_sequence) - 1)\<close> with the
  accumulator \<open>transitions\<close>. The indices \<open>i\<close> and \<open>i + 1\<close> are below the length.
\<close>

definition vertex_to_transition_step :: "int list \<Rightarrow> nat \<Rightarrow> int list \<Rightarrow> error + int list" where
  "vertex_to_transition_step vertex_sequence i transitions =
     (let xor_result = (vertex_sequence ! i) XOR (vertex_sequence ! (i + 1)) in
      if xor_result = 0 then Inl (IdenticalVertices i (i + 1) (vertex_sequence ! i))
      else if xor_result AND (xor_result - 1) \<noteq> 0
        then Inl (MultipleBits i (i + 1) (vertex_sequence ! i) (vertex_sequence ! (i + 1)))
      else let bit_position = bit_length xor_result - 1
           in Inr (transitions @ [bit_position]))"

definition vertex_to_transition :: "int list \<Rightarrow> error + int list" where
  "vertex_to_transition vertex_sequence =
     (if length vertex_sequence < 2 then Inr []
      else for_each [0 ..< length vertex_sequence - 1]
             (vertex_to_transition_step vertex_sequence) [])"

text \<open>
  \<open>transition_to_vertex\<close>: the loop state is the pair \<open>(vertices, current)\<close>.
\<close>

definition transition_to_vertex_step ::
  "int \<Rightarrow> int \<Rightarrow> int list \<times> int \<Rightarrow> error + int list \<times> int" where
  "transition_to_vertex_step dimension transition s =
     (case s of (vertices, current) \<Rightarrow>
        if transition < 0 \<or> transition \<ge> dimension
        then Inl (TransitionOutOfRange transition dimension)
        else let current' = current XOR push_bit (nat transition) 1
             in Inr (vertices @ [current'], current'))"

definition transition_to_vertex :: "int list \<Rightarrow> int \<Rightarrow> int \<Rightarrow> error + int list" where
  "transition_to_vertex transition_sequence dimension start_vertex =
     (case for_each transition_sequence (transition_to_vertex_step dimension)
             ([start_vertex], start_vertex) of
        Inl e \<Rightarrow> Inl e
      | Inr (vertices, current) \<Rightarrow> Inr vertices)"

text \<open>
  \<open>compute_current_vertex\<close> has no range check: a negative transition makes
  \<open>1 << transition\<close> raise.
\<close>

definition compute_current_vertex_step :: "int \<Rightarrow> int \<Rightarrow> error + int" where
  "compute_current_vertex_step transition vertex =
     (if transition < 0 then Inl NegativeShift
      else Inr (vertex XOR push_bit (nat transition) 1))"

definition compute_current_vertex :: "int list \<Rightarrow> error + int" where
  "compute_current_vertex transition_sequence =
     for_each transition_sequence compute_current_vertex_step 0"

section \<open>core/validation.py\<close>

definition hamming_distance :: "int \<Rightarrow> int \<Rightarrow> nat" where
  "hamming_distance a b = count_ones (a XOR b)"

text \<open>
  The second component of the result of \<open>validate_snake\<close> is a formatted message; the model
  keeps which message it is and the values interpolated into it.
\<close>

datatype reason =
    ValidTrivial                      \<comment> \<open>Valid snake (trivial case)\<close>
  | ValidSnake                        \<comment> \<open>Valid snake\<close>
  | ConsecutiveBad nat nat nat        \<comment> \<open>Consecutive vertices i and i+1 have Hamming distance h, expected 1\<close>
  | NonConsecutiveBad nat nat nat     \<comment> \<open>Non-consecutive vertices j and i have Hamming distance h, must be > 1\<close>

definition check_consecutive :: "int list \<Rightarrow> nat \<Rightarrow> (bool \<times> reason) option" where
  "check_consecutive vertex_sequence i =
     (let hamming_dist = hamming_distance (vertex_sequence ! i) (vertex_sequence ! (i + 1)) in
      if hamming_dist \<noteq> 1 then Some (False, ConsecutiveBad i (i + 1) hamming_dist)
      else None)"

definition check_non_consecutive :: "int list \<Rightarrow> nat \<Rightarrow> nat \<Rightarrow> (bool \<times> reason) option" where
  "check_non_consecutive vertex_sequence i j =
     (let hamming_dist = hamming_distance (vertex_sequence ! i) (vertex_sequence ! j) in
      if hamming_dist \<le> 1 then Some (False, NonConsecutiveBad j i hamming_dist)
      else None)"

definition validate_snake :: "int list \<Rightarrow> bool \<times> reason" where
  "validate_snake vertex_sequence =
     (let n = length vertex_sequence in
      if n < 2 then (True, ValidTrivial)
      else case for_return [0 ..< n - 1] (check_consecutive vertex_sequence) of
        Some r \<Rightarrow> r
      | None \<Rightarrow>
         (case for_return [2 ..< n]
                 (\<lambda>i. for_return [0 ..< i - 1] (check_non_consecutive vertex_sequence i)) of
            Some r \<Rightarrow> r
          | None \<Rightarrow> (True, ValidSnake)))"

section \<open>utils/canonical.py\<close>

text \<open>The loop of \<open>is_canonical\<close>, with the loop-carried \<open>max_dimension\<close>.\<close>

fun is_canonical_loop :: "int \<Rightarrow> int list \<Rightarrow> bool" where
  "is_canonical_loop max_dimension [] = True"
| "is_canonical_loop max_dimension (dim # rest) =
     (if dim > max_dimension + 1 then False
      else is_canonical_loop (if dim = max_dimension + 1 then dim else max_dimension) rest)"

definition is_canonical :: "int list \<Rightarrow> bool" where
  "is_canonical transition_sequence =
     (case transition_sequence of
        [] \<Rightarrow> True
      | first # _ \<Rightarrow> if first \<noteq> 0 then False else is_canonical_loop 0 transition_sequence)"

text \<open>
  \<open>list(set(transition_sequence))\<close> lists the distinct elements in an unspecified order;
  the list is sorted before it is returned, so the order does not show.
\<close>

definition get_legal_next_dimensions :: "int list \<Rightarrow> int list" where
  "get_legal_next_dimensions transition_sequence =
     (if transition_sequence = [] then [0]
      else let max_dim = Max (set transition_sequence);
               legal = remdups transition_sequence @ [max_dim + 1]
           in sort legal)"

section \<open>core/hypercube.py\<close>

text \<open>
  \<open>HypercubeBitmap\<close>: the array of type code \<open>'Q'\<close> is a list of 64-bit words. The field
  \<open>dimension\<close> is called \<open>bm_dimension\<close> here, since \<open>SnakeNode\<close> has a field of the
  same name.
\<close>

record hypercube_bitmap =
  bm_dimension :: int
  num_vertices :: int
  num_words :: int
  bitmap :: "64 word list"

definition HypercubeBitmap :: "int \<Rightarrow> error + hypercube_bitmap" where
  "HypercubeBitmap d =
     (if d < 1 then Inl (DimensionTooSmall d)
      else let nv = push_bit (nat d) 1;
               nw = (nv + 63) div 64
           in Inr \<lparr>bm_dimension = d, num_vertices = nv, num_words = nw,
                   bitmap = replicate (nat nw) 0\<rparr>)"

text \<open>
  \<open>set_bit\<close>, \<open>get_bit\<close> and \<open>clear_bit\<close>. After the range check the vertex is not
  negative, so \<open>word_idx\<close> and \<open>bit_idx\<close> are natural numbers; indexing the array
  beyond its length raises.
\<close>

definition set_bit_bm :: "hypercube_bitmap \<Rightarrow> int \<Rightarrow> error + hypercube_bitmap" where
  "set_bit_bm b vertex =
     (if vertex < 0 \<or> vertex \<ge> num_vertices b then Inl (VertexOutOfRange vertex (num_vertices b))
      else let word_idx = nat (drop_bit 6 vertex);
               bit_idx = nat (vertex AND 63)
           in if word_idx \<ge> length (bitmap b) then Inl ArrayIndexError
              else Inr (b\<lparr>bitmap := (bitmap b)[word_idx := (bitmap b ! word_idx) OR push_bit bit_idx 1]\<rparr>))"

definition get_bit :: "hypercube_bitmap \<Rightarrow> int \<Rightarrow> error + bool" where
  "get_bit b vertex =
     (if vertex < 0 \<or> vertex \<ge> num_vertices b then Inl (VertexOutOfRange vertex (num_vertices b))
      else let word_idx = nat (drop_bit 6 vertex);
               bit_idx = nat (vertex AND 63)
           in if word_idx \<ge> length (bitmap b) then Inl ArrayIndexError
              else Inr ((bitmap b ! word_idx) AND push_bit bit_idx 1 \<noteq> 0))"

definition clear_bit :: "hypercube_bitmap \<Rightarrow> int \<Rightarrow> error + hypercube_bitmap" where
  "clear_bit b vertex =
     (if vertex < 0 \<or> vertex \<ge> num_vertices b then Inl (VertexOutOfRange vertex (num_vertices b))
      else let word_idx = nat (drop_bit 6 vertex);
               bit_idx = nat (vertex AND 63)
           in if word_idx \<ge> length (bitmap b) then Inl ArrayIndexError
              else Inr (b\<lparr>bitmap := (bitmap b)[word_idx := (bitmap b ! word_idx) AND NOT (push_bit bit_idx 1)]\<rparr>))"

definition count_unmarked :: "hypercube_bitmap \<Rightarrow> error + int" where
  "count_unmarked b =
     for_each (map int [0 ..< nat (num_vertices b)])
       (\<lambda>vertex count. and_then (get_bit b vertex)
          (\<lambda>marked. Inr (if \<not> marked then count + 1 else count)))
       0"

definition count_unmarked_fast :: "hypercube_bitmap \<Rightarrow> int" where
  "count_unmarked_fast b =
     (let marked_bits = sum_list (map (\<lambda>word. int (count_ones (uint word))) (bitmap b))
      in num_vertices b - marked_bits)"

definition clear_all :: "hypercube_bitmap \<Rightarrow> error + hypercube_bitmap" where
  "clear_all b =
     for_each [0 ..< nat (num_words b)]
       (\<lambda>i bm. if i \<ge> length (bitmap bm) then Inl ArrayIndexError
               else Inr (bm\<lparr>bitmap := (bitmap bm)[i := 0]\<rparr>))
       b"

definition copy_bitmap :: "hypercube_bitmap \<Rightarrow> error + hypercube_bitmap" where
  "copy_bitmap b =
     and_then (HypercubeBitmap (bm_dimension b))
       (\<lambda>new_bitmap. Inr (new_bitmap\<lparr>bitmap := bitmap b\<rparr>))"

section \<open>core/snake\_node.py\<close>

record snake_node =
  transition_sequence :: "int list"
  dimension :: int
  vertices_bitmap :: hypercube_bitmap
  fitness :: int

text \<open>
  The methods whose names start with an underscore in the source are written without it.
  A Python \<open>set\<close> of integers is a duplicate-free list; the loops over it only set bits,
  so its iteration order does not show in the result.
\<close>

definition get_used_dimensions :: "int list \<Rightarrow> int list" where
  "get_used_dimensions ts = (if ts = [] then [] else remdups ts)"

definition mark_vertex :: "int \<Rightarrow> hypercube_bitmap \<Rightarrow> error + hypercube_bitmap" where
  "mark_vertex vertex bm = set_bit_bm bm vertex"

definition mark_adjacent ::
  "int \<Rightarrow> int \<Rightarrow> hypercube_bitmap \<Rightarrow> int list option \<Rightarrow> error + hypercube_bitmap" where
  "mark_adjacent self_dimension vertex bm used_dimensions =
     (let used = (case used_dimensions of
                    None \<Rightarrow> map int [0 ..< nat self_dimension]
                  | Some u \<Rightarrow> u)
      in for_each used
           (\<lambda>dim bm. if dim < self_dimension
                      then if dim < 0 then Inl NegativeShift
                           else set_bit_bm bm (vertex XOR push_bit (nat dim) 1)
                      else Inr bm)
           bm)"

definition initialize_bitmap_step ::
  "int \<Rightarrow> int list \<Rightarrow> int \<Rightarrow> int \<times> hypercube_bitmap \<Rightarrow> error + int \<times> hypercube_bitmap" where
  "initialize_bitmap_step self_dimension used_dimensions transition s =
     (case s of (current_vertex, bm) \<Rightarrow>
        if transition < 0 then Inl NegativeShift
        else let current_vertex' = current_vertex XOR push_bit (nat transition) 1 in
          and_then (mark_vertex current_vertex' bm) (\<lambda>bm.
          and_then (mark_adjacent self_dimension current_vertex' bm (Some used_dimensions)) (\<lambda>bm.
          Inr (current_vertex', bm))))"

definition initialize_bitmap :: "int list \<Rightarrow> int \<Rightarrow> error + hypercube_bitmap" where
  "initialize_bitmap self_transition_sequence self_dimension =
     and_then (HypercubeBitmap self_dimension) (\<lambda>bm.
     let used_dimensions = get_used_dimensions self_transition_sequence;
         current_vertex = 0
     in and_then (mark_vertex current_vertex bm) (\<lambda>bm.
        and_then (mark_adjacent self_dimension current_vertex bm (Some used_dimensions)) (\<lambda>bm.
        and_then (for_each self_transition_sequence
                    (initialize_bitmap_step self_dimension used_dimensions)
                    (current_vertex, bm))
          (\<lambda>(current_vertex, bm). Inr bm))))"

definition SnakeNode :: "int list \<Rightarrow> int \<Rightarrow> error + snake_node" where
  "SnakeNode ts d =
     (if d < 1 then Inl (DimensionTooSmall d)
      else and_then (for_each ts
                       (\<lambda>trans u. if trans < 0 \<or> trans \<ge> d
                                   then Inl (TransitionOutOfRange trans d) else Inr u)
                       ())
             (\<lambda>u. and_then (initialize_bitmap ts d)
             (\<lambda>bm. and_then (count_unmarked bm)
             (\<lambda>fit. Inr \<lparr>transition_sequence = ts, dimension = d,
                           vertices_bitmap = bm, fitness = fit\<rparr>))))"

definition is_marked :: "snake_node \<Rightarrow> int \<Rightarrow> error + bool" where
  "is_marked node vertex = get_bit (vertices_bitmap node) vertex"

definition get_current_vertex :: "snake_node \<Rightarrow> error + int" where
  "get_current_vertex node = compute_current_vertex (transition_sequence node)"

definition can_extend :: "snake_node \<Rightarrow> int \<Rightarrow> error + bool" where
  "can_extend node new_dimension =
     (if new_dimension < 0 \<or> new_dimension \<ge> dimension node then Inr False
      else and_then (get_current_vertex node) (\<lambda>current_vertex.
           let next_vertex = current_vertex XOR push_bit (nat new_dimension) 1
           in and_then (is_marked node next_vertex) (\<lambda>marked. Inr (\<not> marked))))"

definition create_child :: "snake_node \<Rightarrow> int \<Rightarrow> error + snake_node" where
  "create_child node new_dimension =
     and_then (can_extend node new_dimension) (\<lambda>ok.
       if \<not> ok then Inl (CannotExtend new_dimension)
       else let new_sequence = transition_sequence node @ [new_dimension]
            in SnakeNode new_sequence (dimension node))"

definition get_length :: "snake_node \<Rightarrow> int" where
  "get_length node = int (length (transition_sequence node))"

section \<open>search/bfs\_pruned.py\<close>

text \<open>
  Memory estimates. \<open>sys.getsizeof\<close> depends on the interpreter, and the comparison with
  \<open>memory_limit_gb\<close> and the quotient in \<open>prune_by_fitness\<close> are floating-point
  computations; they are parameters of the model, and the theorems about the search hold
  for all values of them unless they name an instance:
  \<^item> \<open>getsizeof_list ts\<close>, \<open>getsizeof_int0\<close> and \<open>getsizeof_array ws\<close> stand for
    \<open>sys.getsizeof\<close> of a transition list, of \<open>0\<close> and of a bitmap array;
  \<^item> \<open>exceeds_limit total_bytes\<close> stands for \<open>total_bytes / (1024**3) > memory_limit_gb\<close>;
  \<^item> \<open>max_nodes_for bytes_per_node\<close> stands for
    \<open>int((memory_limit_gb * 1024**3) / bytes_per_node)\<close>. The conversion \<open>int\<close> raises
    \<open>OverflowError\<close> when the quotient is infinite (a limit of \<open>-inf\<close> or \<open>inf\<close>, or a
    finite limit whose product with \<open>1024**3\<close> overflows) and \<open>ValueError\<close> when it is
    \<open>nan\<close>; the statement is outside every \<open>try\<close> of the search, so \<open>Inl e\<close> is an
    exception that leaves \<open>pruned_bfs_search\<close>.
\<close>

record memory_model =
  getsizeof_list :: "int list \<Rightarrow> int"
  getsizeof_int0 :: int
  getsizeof_array :: "64 word list \<Rightarrow> int"
  exceeds_limit :: "int \<Rightarrow> bool"
  max_nodes_for :: "int \<Rightarrow> error + int"

definition is_valid_extension :: "snake_node \<Rightarrow> int \<Rightarrow> error + bool" where
  "is_valid_extension node new_dimension = can_extend node new_dimension"

definition estimate_node_size :: "memory_model \<Rightarrow> snake_node \<Rightarrow> int" where
  "estimate_node_size mm node =
     (let transition_size = getsizeof_list mm (transition_sequence node)
                            + int (length (transition_sequence node)) * getsizeof_int0 mm;
          bitmap_size = getsizeof_array mm (bitmap (vertices_bitmap node))
                        + num_words (vertices_bitmap node) * 8;
          object_overhead = 200
      in transition_size + bitmap_size + object_overhead)"

text \<open>
  \<open>estimate_memory_usage(nodes) > memory_limit_gb\<close>, the only use of
  \<open>estimate_memory_usage\<close> in the search; for the empty list the estimate is \<open>0.0\<close>.
\<close>

definition memory_usage_exceeds :: "memory_model \<Rightarrow> snake_node list \<Rightarrow> bool" where
  "memory_usage_exceeds mm nodes =
     (if nodes = [] then exceeds_limit mm 0
      else let bytes_per_node = estimate_node_size mm (nodes ! 0);
               total_bytes = int (length nodes) * bytes_per_node
           in exceeds_limit mm total_bytes)"

text \<open>The slice \<open>xs[:k]\<close>; a negative \<open>k\<close> counts from the end.\<close>

definition slice_to :: "'a list \<Rightarrow> int \<Rightarrow> 'a list" where
  "slice_to xs k = (if k \<ge> 0 then take (nat k) xs else take (nat (int (length xs) + k)) xs)"

text \<open>
  \<open>nodes.sort(key=lambda n: n.fitness, reverse=True)\<close> is a stable sort in descending
  order of fitness, as is \<open>sort_key\<close> with the negated key.
\<close>

definition prune_by_fitness :: "memory_model \<Rightarrow> snake_node list \<Rightarrow> error + snake_node list" where
  "prune_by_fitness mm nodes =
     (if nodes = [] then Inr nodes
      else let bytes_per_node = estimate_node_size mm (nodes ! 0)
           in and_then (max_nodes_for mm bytes_per_node) (\<lambda>max_nodes.
                if int (length nodes) \<le> max_nodes then Inr nodes
                else Inr (slice_to (sort_key (\<lambda>n. - fitness n) nodes) max_nodes)))"

text \<open>
  The state of the \<open>while\<close> loop of \<open>pruned_bfs_search\<close>. The timing bookkeeping
  (\<open>start_time\<close>, \<open>level_times\<close>) and the printing under \<open>verbose\<close> do not influence the
  result and are left out, as is the \<open>_search_metadata\<close> attribute attached to the result.
\<close>

record bfs_state =
  current_level :: "snake_node list"
  next_level :: "snake_node list"
  best_snake :: "snake_node option"
  max_length :: int
  level_count :: int
  total_nodes_explored :: int

text \<open>The body of \<open>for dim in legal_dims\<close>.\<close>

definition bfs_try_dim :: "snake_node \<Rightarrow> int \<Rightarrow> bfs_state \<Rightarrow> error + bfs_state" where
  "bfs_try_dim node dim s =
     and_then (is_valid_extension node dim) (\<lambda>ok.
       if ok then
         (case create_child node dim of
            Inl e \<Rightarrow> if is_ValueError e then Inr s else Inl e
          | Inr child \<Rightarrow>
              let s1 = s\<lparr>next_level := next_level s @ [child],
                         total_nodes_explored := total_nodes_explored s + 1\<rparr>;
                  child_length = get_length child
              in if child_length > max_length s1
                 then Inr (s1\<lparr>max_length := child_length, best_snake := Some child\<rparr>)
                 else Inr s1)
       else Inr s)"

text \<open>The body of \<open>for node in current_level\<close>.\<close>

definition bfs_expand_node :: "snake_node \<Rightarrow> bfs_state \<Rightarrow> error + bfs_state" where
  "bfs_expand_node node s =
     (let legal_dims = get_legal_next_dimensions (transition_sequence node)
      in for_each legal_dims (bfs_try_dim node) s)"

text \<open>One iteration of the \<open>while\<close> loop.\<close>

definition bfs_level :: "memory_model \<Rightarrow> bfs_state \<Rightarrow> error + bfs_state" where
  "bfs_level mm s =
     and_then (for_each (current_level s) bfs_expand_node (s\<lparr>next_level := []\<rparr>)) (\<lambda>s1.
       and_then (if memory_usage_exceeds mm (next_level s1)
                 then and_then (prune_by_fitness mm (next_level s1)) (\<lambda>pruned.
                        Inr (s1\<lparr>next_level := pruned\<rparr>))
                 else Inr s1) (\<lambda>s2.
         Inr (s2\<lparr>current_level := next_level s2, level_count := level_count s2 + 1\<rparr>)))"



definition bfs_initial_state :: "snake_node \<Rightarrow> bfs_state" where
  "bfs_initial_state root =
     \<lparr>current_level = [root], next_level = [], best_snake = None, max_length = 0,
      level_count = 0, total_nodes_explored = 0\<rparr>"


text \<open>
  The frontiers of the search: \<open>bfs_after mm d k\<close> is the state after \<open>k\<close> iterations of
  the loop (or the final state, when the loop has ended before), and its \<open>current_level\<close>
  is the frontier of level \<open>k\<close>.
\<close>

fun bfs_after :: "memory_model \<Rightarrow> int \<Rightarrow> nat \<Rightarrow> error + bfs_state" where
  "bfs_after mm d 0 = and_then (SnakeNode [] d) (\<lambda>root. Inr (bfs_initial_state root))"
| "bfs_after mm d (Suc k) =
     and_then (bfs_after mm d k) (\<lambda>s. if current_level s = [] then Inr s else bfs_level mm s)"

section \<open>search/fitness.py\<close>

text \<open>
  \<open>AdvancedFitnessEvaluator\<close>: the object keeps the node, its bitmap and its dimension.
\<close>

record advanced_fitness_evaluator =
  ev_node :: snake_node
  ev_bitmap :: hypercube_bitmap
  ev_dimension :: int

definition AdvancedFitnessEvaluator :: "snake_node \<Rightarrow> advanced_fitness_evaluator" where
  "AdvancedFitnessEvaluator node =
     \<lparr>ev_node = node, ev_bitmap = vertices_bitmap node, ev_dimension = dimension node\<rparr>"

definition count_unmarked_vertices :: "advanced_fitness_evaluator \<Rightarrow> int" where
  "count_unmarked_vertices self = fitness (ev_node self)"

text \<open>
  The \<open>while queue\<close> loop of \<open>_flood_fill_reachable\<close>: \<open>queue.pop(0)\<close> takes the head of
  the list, and the neighbours not yet visited are appended to its end. Each iteration
  shortens the queue or adds a vertex of the bitmap to \<open>visited\<close>, so the loop ends.
\<close>

function flood_fill_loop ::
  "advanced_fitness_evaluator \<Rightarrow> int set \<Rightarrow> int list \<Rightarrow> error + int set" where
  "flood_fill_loop self visited queue =
     (case queue of
        [] \<Rightarrow> Inr visited
      | vertex # rest \<Rightarrow>
          if vertex \<in> visited then flood_fill_loop self visited rest
          else case is_marked (ev_node self) vertex of
                 Inl e \<Rightarrow> Inl e
               | Inr marked \<Rightarrow>
                   if marked then flood_fill_loop self visited rest
                   else flood_fill_loop self (insert vertex visited)
                          (rest @ filter (\<lambda>neighbor. neighbor \<notin> insert vertex visited)
                                    (map (\<lambda>dim. vertex XOR push_bit dim 1)
                                       [0 ..< nat (ev_dimension self)])))"
  by pat_completeness auto

termination
proof (relation "measures
    [\<lambda>(self, visited, queue).
        card ({0 ..< num_vertices (vertices_bitmap (ev_node self))} - visited),
     \<lambda>(self, visited, queue). length queue]", goal_cases)
  case 1
  show ?case by simp
next
  case (2 self visited queue vertex rest)
  then show ?case by simp
next
  case (3 self visited queue vertex rest marked)
  then show ?case by simp
next
  case (4 self visited queue vertex rest marked)
  let ?A = "{0 ..< num_vertices (vertices_bitmap (ev_node self))}"
  from 4 have m: "is_marked (ev_node self) vertex = Inr marked" and nv: "vertex \<notin> visited"
    by simp_all
  from m have "vertex \<in> ?A"
    by (auto simp: is_marked_def get_bit_def split: if_splits)
  with nv have "?A - insert vertex visited \<subset> ?A - visited" by blast
  then have "card (?A - insert vertex visited) < card (?A - visited)"
    by (intro psubset_card_mono) simp_all
  then show ?case by simp
qed

declare flood_fill_loop.simps [simp del]

definition flood_fill_reachable :: "advanced_fitness_evaluator \<Rightarrow> int \<Rightarrow> error + int set" where
  "flood_fill_reachable self start_vertex = flood_fill_loop self {} [start_vertex]"

definition count_unreachable_vertices :: "advanced_fitness_evaluator \<Rightarrow> error + int" where
  "count_unreachable_vertices self =
     and_then (compute_current_vertex (transition_sequence (ev_node self))) (\<lambda>current_vertex.
     and_then (flood_fill_reachable self current_vertex) (\<lambda>reachable.
       let total_unmarked = count_unmarked_vertices self
       in Inr (total_unmarked - int (card reachable))))"


section \<open>search/priming.py\<close>

definition detect_dimension :: "int list \<Rightarrow> int" where
  "detect_dimension ts = (if ts = [] then 1 else Max (set ts) + 1)"

text \<open>
  Control flow. The body of a loop that may \<open>break\<close> returns \<open>Break s\<close>; it returns
  \<open>Next s\<close> when it reaches its end or a \<open>continue\<close>, and the loop goes on with the next
  element (or, in a \<open>while\<close> loop, with the test of its condition).
\<close>

datatype 's flow = Break 's | Next 's

fun for_break :: "'a list \<Rightarrow> ('a \<Rightarrow> 's \<Rightarrow> error + 's flow) \<Rightarrow> 's \<Rightarrow> error + 's" where
  "for_break [] body s = Inr s"
| "for_break (x # xs) body s =
     (case body x s of
        Inl e \<Rightarrow> Inl e
      | Inr (Break s') \<Rightarrow> Inr s'
      | Inr (Next s') \<Rightarrow> for_break xs body s')"

text \<open>\<open>any(f(x) for x in xs)\<close>: the generator is consumed up to the first true value.\<close>

fun any_of :: "'a list \<Rightarrow> ('a \<Rightarrow> error + bool) \<Rightarrow> error + bool" where
  "any_of [] f = Inr False"
| "any_of (x # xs) f =
     (case f x of Inl e \<Rightarrow> Inl e | Inr b \<Rightarrow> if b then Inr True else any_of xs f)"

text \<open>
  \<open>try: m except ValueError: handler\<close>, where the handler leaves the value \<open>d\<close>; and the
  same for \<open>except (ValueError, Exception)\<close>, which catches every exception of the model.
\<close>

definition except_ValueError :: "error + 'a \<Rightarrow> 'a \<Rightarrow> error + 'a" where
  "except_ValueError m d =
     (case m of Inl e \<Rightarrow> if is_ValueError e then Inr d else Inl e | Inr x \<Rightarrow> Inr x)"

definition except_Exception :: "error + 'a \<Rightarrow> 'a \<Rightarrow> error + 'a" where
  "except_Exception m d = (case m of Inl e \<Rightarrow> Inr d | Inr x \<Rightarrow> Inr x)"

text \<open>
  The lines \<open>new_dim = dimension - 1\<close>,
  \<open>if new_dim not in legal_dims and new_dim < dimension: legal_dims = list(legal_dims) + [new_dim]\<close>,
  which the source repeats wherever it allows the new dimension.
\<close>

definition with_new_dim :: "int list \<Rightarrow> int \<Rightarrow> int list" where
  "with_new_dim legal_dims dimension' =
     (let new_dim = dimension' - 1
      in if new_dim \<notin> set legal_dims \<and> new_dim < dimension' then legal_dims @ [new_dim]
         else legal_dims)"

text \<open>
  The products \<open>int(seed_length * prefix_ratio)\<close> and \<open>int(best_snake.get_length() * ratio)\<close>
  are floating-point computations; they are a parameter of the model:
  \<open>scaled n r\<close> stands for \<open>int(n * (r / 1000))\<close>, where the ratio literal of the source is
  written in thousandths (\<open>0.999\<close> is \<open>999\<close>, \<open>0.05\<close> is \<open>50\<close>).
\<close>

type_synonym scaling = "int \<Rightarrow> int \<Rightarrow> int"

definition prefix_ratios :: "int \<Rightarrow> int list" where
  "prefix_ratios dimension' =
     (if dimension' \<ge> 14
      then [999, 990, 980, 970, 950, 930, 900, 870, 850, 800, 750, 700, 650, 600, 500, 400,
            300, 200, 100]
      else [980, 950, 900, 850, 800, 750, 700])"

definition fixed_lengths :: "int \<Rightarrow> int \<Rightarrow> int list" where
  "fixed_lengths dimension' seed_length =
     (if dimension' \<ge> 14
      then [seed_length - 1, seed_length - 10, seed_length - 50, seed_length - 100,
            seed_length - 500, seed_length - 1000, seed_length div 2, seed_length div 4]
      else [])"

text \<open>
  The \<open>try\<close> statement in the bodies of the two loops over prefixes: the prefix node is
  appended to \<open>initial_nodes\<close> when it can extend in the new dimension or in a legal one.
\<close>

definition try_prefix ::
  "snake_node \<Rightarrow> int \<Rightarrow> int \<Rightarrow> snake_node list \<Rightarrow> error + snake_node list" where
  "try_prefix seed_node dimension' prefix_len initial_nodes =
     (let prefix_seq = slice_to (transition_sequence seed_node) prefix_len
      in except_ValueError
           (and_then (SnakeNode prefix_seq dimension') (\<lambda>prefix_node.
              let legal_dims = get_legal_next_dimensions prefix_seq;
                  new_dim = dimension' - 1
              in and_then (can_extend prefix_node new_dim) (\<lambda>can_extend_new_dim.
                 and_then (any_of (filter (\<lambda>d. d < dimension') legal_dims) (can_extend prefix_node))
                   (\<lambda>can_extend_any.
                      if can_extend_new_dim \<or> can_extend_any
                      then Inr (initial_nodes @ [prefix_node])
                      else Inr initial_nodes))))
           initial_nodes)"

text \<open>The seed node and the prefixes to start from (\<open>initial_nodes\<close>).\<close>

definition initial_nodes_of :: "scaling \<Rightarrow> snake_node \<Rightarrow> int \<Rightarrow> error + snake_node list" where
  "initial_nodes_of scaled seed_node dimension' =
     (let seed_length = get_length seed_node;
          initial_nodes = [seed_node]
      in if seed_length > 100 then
           and_then
             (for_each (prefix_ratios dimension')
                (\<lambda>prefix_ratio nodes.
                   let prefix_len = scaled seed_length prefix_ratio
                   in if prefix_len > 0 \<and> prefix_len < seed_length
                      then try_prefix seed_node dimension' prefix_len nodes
                      else Inr nodes)
                initial_nodes)
             (\<lambda>nodes.
                for_each (fixed_lengths dimension' seed_length)
                  (\<lambda>prefix_len nodes.
                     if prefix_len > 0 \<and> prefix_len < seed_length
                        \<and> prefix_len \<notin> set (map (scaled seed_length) (prefix_ratios dimension'))
                     then try_prefix seed_node dimension' prefix_len nodes
                     else Inr nodes)
                  nodes)
         else Inr initial_nodes)"

text \<open>The body of \<open>for node in initial_nodes\<close>, which collects \<open>viable_nodes\<close>.\<close>

definition viable_step :: "int \<Rightarrow> snake_node \<Rightarrow> snake_node list \<Rightarrow> error + snake_node list" where
  "viable_step dimension' node viable_nodes =
     (let legal_dims = with_new_dim (get_legal_next_dimensions (transition_sequence node)) dimension'
      in and_then (any_of (filter (\<lambda>d. d < dimension') legal_dims) (is_valid_extension node))
           (\<lambda>can_extend_node.
              if can_extend_node then Inr (viable_nodes @ [node])
              else if dimension' \<ge> 14
                   then (if fitness node > 100 then Inr (viable_nodes @ [node]) else Inr viable_nodes)
                   else Inr viable_nodes))"

text \<open>The body of \<open>for short_len in [100, 50, 20, 10, 5]\<close>, the last resort.\<close>

definition short_prefix_step ::
  "snake_node \<Rightarrow> int \<Rightarrow> int \<Rightarrow> snake_node list \<Rightarrow> error + snake_node list flow" where
  "short_prefix_step seed_node dimension' short_len viable_nodes =
     (if short_len < get_length seed_node then
        except_Exception
          (let short_seq = slice_to (transition_sequence seed_node) short_len
           in and_then (SnakeNode short_seq dimension') (\<lambda>short_node.
                let legal_dims = with_new_dim (get_legal_next_dimensions short_seq) dimension'
                in and_then (any_of (filter (\<lambda>d. d < dimension') legal_dims)
                               (is_valid_extension short_node))
                     (\<lambda>found. if found then Inr (Break (viable_nodes @ [short_node]))
                               else Inr (Next viable_nodes))))
          (Next viable_nodes)
      else Inr (Next viable_nodes))"

text \<open>The starting points of the search (\<open>viable_nodes\<close> when the loop begins).\<close>

definition viable_nodes_of :: "scaling \<Rightarrow> snake_node \<Rightarrow> int \<Rightarrow> error + snake_node list" where
  "viable_nodes_of scaled seed_node dimension' =
     and_then (initial_nodes_of scaled seed_node dimension') (\<lambda>initial_nodes.
     and_then (for_each initial_nodes (viable_step dimension') []) (\<lambda>viable_nodes.
       if viable_nodes = [] then
         and_then (for_break [100, 50, 20, 10, 5] (short_prefix_step seed_node dimension') viable_nodes)
           (\<lambda>viable_nodes. if viable_nodes = [] then Inr [seed_node] else Inr viable_nodes)
       else Inr viable_nodes))"

text \<open>
  The state of the \<open>while\<close> loop of \<open>pruned_bfs_search_from_seed\<close>: the variables of the
  loop of \<open>pruned_bfs_search\<close> and \<open>no_improvement_count\<close>.
\<close>

record seed_state = bfs_state +
  no_improvement_count :: int

text \<open>The body of \<open>for dim_val in legal_dims\<close>.\<close>

definition seed_try_dim :: "int \<Rightarrow> snake_node \<Rightarrow> int \<Rightarrow> seed_state \<Rightarrow> error + seed_state" where
  "seed_try_dim dimension' node dim_val s =
     (if dim_val \<ge> dimension' then Inr s
      else and_then (is_valid_extension node dim_val) (\<lambda>ok.
        if ok then
          (case create_child node dim_val of
             Inl e \<Rightarrow> if is_ValueError e then Inr s else Inl e
           | Inr child \<Rightarrow>
               let s1 = s\<lparr>next_level := next_level s @ [child],
                          total_nodes_explored := total_nodes_explored s + 1\<rparr>;
                   child_length = get_length child
               in if child_length > max_length s1
                  then Inr (s1\<lparr>max_length := child_length, best_snake := Some child,
                               no_improvement_count := 0\<rparr>)
                  else Inr (s1\<lparr>no_improvement_count := no_improvement_count s1 + 1\<rparr>))
        else Inr s))"

text \<open>The body of \<open>for node in current_level\<close>.\<close>

definition seed_expand_node :: "int \<Rightarrow> snake_node \<Rightarrow> seed_state \<Rightarrow> error + seed_state" where
  "seed_expand_node dimension' node s =
     (let legal_dims = with_new_dim (get_legal_next_dimensions (transition_sequence node)) dimension'
      in for_each legal_dims (seed_try_dim dimension' node) s)"

text \<open>
  In the backtracking: \<open>for d in legal_dims: if d < dimension and
  is_valid_extension(prefix_node, d): next_level.append(prefix_node); break\<close>.
\<close>

definition append_if_extends ::
  "int \<Rightarrow> snake_node \<Rightarrow> int list \<Rightarrow> snake_node list \<Rightarrow> error + snake_node list" where
  "append_if_extends dimension' prefix_node legal_dims nodes =
     for_break legal_dims
       (\<lambda>d nodes.
          if d < dimension'
          then and_then (is_valid_extension prefix_node d) (\<lambda>ok.
                 if ok then Inr (Break (nodes @ [prefix_node])) else Inr (Next nodes))
          else Inr (Next nodes))
       nodes"

text \<open>
  The statements under \<open>try\<close> in both backtracking loops: the prefix of the best snake of
  length \<open>prefix_len\<close> is appended to \<open>next_level\<close> when it can extend.
\<close>

definition backtrack_prefix ::
  "snake_node \<Rightarrow> int \<Rightarrow> int \<Rightarrow> snake_node list \<Rightarrow> error + snake_node list" where
  "backtrack_prefix best dimension' prefix_len nodes =
     (let prefix_seq = slice_to (transition_sequence best) prefix_len
      in and_then (SnakeNode prefix_seq dimension') (\<lambda>prefix_node.
           let legal_dims = with_new_dim (get_legal_next_dimensions prefix_seq) dimension'
           in append_if_extends dimension' prefix_node legal_dims nodes))"

text \<open>
  The body of \<open>for ratio in [0.9, ..., 0.05]\<close>; the state is \<open>tried_lengths\<close> and
  \<open>next_level\<close>. An exception under \<open>try\<close> is raised before anything is appended.
\<close>

definition backtrack_ratio_step ::
  "scaling \<Rightarrow> snake_node \<Rightarrow> int \<Rightarrow> int \<Rightarrow> int set \<times> snake_node list
     \<Rightarrow> error + (int set \<times> snake_node list) flow" where
  "backtrack_ratio_step scaled best dimension' ratio st =
     (let tried_lengths = fst st;
          nodes = snd st;
          prefix_len = max 1 (scaled (get_length best) ratio)
      in if prefix_len < get_length best \<and> prefix_len \<notin> tried_lengths then
           (let tried_lengths = insert prefix_len tried_lengths
            in case backtrack_prefix best dimension' prefix_len nodes of
                 Inl e \<Rightarrow> Inr (Next (tried_lengths, nodes))
               | Inr nodes \<Rightarrow>
                   if nodes \<noteq> [] then Inr (Break (tried_lengths, nodes))
                   else Inr (Next (tried_lengths, nodes)))
         else Inr (Next (tried_lengths, nodes)))"

text \<open>The body of \<open>for short_len in [1000, 500, 200, 100, 50, 20, 10]\<close>.\<close>

definition backtrack_short_step ::
  "snake_node \<Rightarrow> int \<Rightarrow> int set \<Rightarrow> int \<Rightarrow> snake_node list \<Rightarrow> error + snake_node list flow" where
  "backtrack_short_step best dimension' tried_lengths short_len nodes =
     (if short_len < get_length best \<and> short_len \<notin> tried_lengths then
        (case backtrack_prefix best dimension' short_len nodes of
           Inl e \<Rightarrow> Inr (Next nodes)
         | Inr nodes \<Rightarrow> if nodes \<noteq> [] then Inr (Break nodes) else Inr (Next nodes))
      else Inr (Next nodes))"

text \<open>
  The block \<open>if best_snake and best_snake.get_length() > 10\<close>, entered with an empty
  \<open>next_level\<close>; the result is \<open>next_level\<close> after it.
\<close>

definition backtrack :: "scaling \<Rightarrow> snake_node option \<Rightarrow> int \<Rightarrow> error + snake_node list" where
  "backtrack scaled best_node dimension' =
     (case best_node of
        None \<Rightarrow> Inr []
      | Some best \<Rightarrow>
          if get_length best > 10 then
            and_then (for_break [900, 800, 700, 600, 500, 400, 300, 200, 100, 50]
                        (backtrack_ratio_step scaled best dimension') ({}, []))
              (\<lambda>st. let tried_lengths = fst st; nodes = snd st
                    in if nodes = []
                       then for_break [1000, 500, 200, 100, 50, 20, 10]
                              (backtrack_short_step best dimension' tried_lengths) nodes
                       else Inr nodes)
          else Inr [])"

text \<open>\<open>if not current_level: break\<close>, the last statement of the loop body.\<close>

definition break_if_exhausted :: "seed_state \<Rightarrow> error + seed_state flow" where
  "break_if_exhausted s = (if current_level s = [] then Inr (Break s) else Inr (Next s))"

text \<open>
  The end of an iteration of the \<open>while\<close> loop, from the pruning on: \<open>next_level\<close> becomes
  the current level, and the loop is left when there has been no improvement for too long
  or the new level is empty.
\<close>

definition seed_advance ::
  "memory_model \<Rightarrow> int \<Rightarrow> int \<Rightarrow> seed_state \<Rightarrow> error + seed_state flow" where
  "seed_advance mm seed_length dimension' s1 =
     and_then (if memory_usage_exceeds mm (next_level s1)
               then and_then (prune_by_fitness mm (next_level s1)) (\<lambda>pruned.
                      Inr (s1\<lparr>next_level := pruned\<rparr>))
               else Inr s1) (\<lambda>s2.
       let s3 = s2\<lparr>current_level := next_level s2, level_count := level_count s2 + 1\<rparr>;
           max_no_improvement = (if dimension' \<ge> 14 then 5000 else 2000)
       in if no_improvement_count s3 > max_no_improvement then
            (if max_length s3 > seed_length then Inr (Break s3)
             else if level_count s3 > 1000 then
               (if dimension' \<ge> 14 \<and> level_count s3 < 5000
                then break_if_exhausted (s3\<lparr>no_improvement_count := 0\<rparr>)
                else Inr (Break s3))
             else break_if_exhausted s3)
          else break_if_exhausted s3)"

text \<open>
  One iteration of the \<open>while\<close> loop. When no child was generated, the search in a
  dimension below 14 leaves the loop; in dimension 14 and above it backtracks, leaves the
  loop when that gives nothing and \<open>level_count > 100\<close>, and otherwise, when that gives
  nothing, goes back to the test of the loop by \<open>continue\<close>.
\<close>

definition seed_level ::
  "scaling \<Rightarrow> memory_model \<Rightarrow> int \<Rightarrow> int \<Rightarrow> seed_state \<Rightarrow> error + seed_state flow" where
  "seed_level scaled mm seed_length dimension' s =
     and_then (for_each (current_level s) (seed_expand_node dimension') (s\<lparr>next_level := []\<rparr>))
       (\<lambda>s1.
          if next_level s1 = [] then
            (if dimension' \<ge> 14 then
               and_then (backtrack scaled (best_snake s1) dimension') (\<lambda>nodes.
                 let s2 = s1\<lparr>next_level := nodes\<rparr>
                 in if next_level s2 = [] \<and> level_count s2 > 100 then Inr (Break s2)
                    else if next_level s2 = [] then Inr (Next s2)
                    else seed_advance mm seed_length dimension' s2)
             else Inr (Break s1))
          else seed_advance mm seed_length dimension' s1)"

text \<open>
  The loop \<open>while current_level and level_count < max_levels\<close>. It is not assumed to end:
  \<open>None\<close> is a run that never leaves it.
\<close>

partial_function (option) seed_loop ::
  "scaling \<Rightarrow> memory_model \<Rightarrow> int \<Rightarrow> int \<Rightarrow> int \<Rightarrow> seed_state \<Rightarrow> (error + seed_state) option"
where
  "seed_loop scaled mm seed_length dimension' max_levels s =
     (if current_level s \<noteq> [] \<and> level_count s < max_levels then
        (case seed_level scaled mm seed_length dimension' s of
           Inl e \<Rightarrow> Some (Inl e)
         | Inr (Break s') \<Rightarrow> Some (Inr s')
         | Inr (Next s') \<Rightarrow> seed_loop scaled mm seed_length dimension' max_levels s')
      else Some (Inr s))"

declare seed_loop.simps [code]

text \<open>
  \<open>pruned_bfs_search_from_seed\<close>; \<open>min_extension\<close> only enters the messages printed
  under \<open>verbose\<close>. The result \<open>Some (Inr None)\<close> is the return value \<open>None\<close>.
\<close>

definition pruned_bfs_search_from_seed ::
  "scaling \<Rightarrow> memory_model \<Rightarrow> snake_node \<Rightarrow> int \<Rightarrow> int \<Rightarrow> int
     \<Rightarrow> (error + snake_node option) option" where
  "pruned_bfs_search_from_seed scaled mm seed_node dimension' max_levels min_extension =
     (if dimension seed_node \<noteq> dimension'
      then Some (Inl (SeedDimensionMismatch (dimension seed_node) dimension'))
      else let seed_length = get_length seed_node
           in case viable_nodes_of scaled seed_node dimension' of
                Inl e \<Rightarrow> Some (Inl e)
              | Inr viable_nodes \<Rightarrow>
                  (case seed_loop scaled mm seed_length dimension' max_levels
                          \<lparr>current_level = viable_nodes, next_level = [],
                           best_snake = Some seed_node, max_length = seed_length,
                           level_count = 0, total_nodes_explored = 0,
                           no_improvement_count = 0\<rparr> of
                     None \<Rightarrow> None
                   | Some (Inl e) \<Rightarrow> Some (Inl e)
                   | Some (Inr s) \<Rightarrow>
                       (case best_snake s of
                          None \<Rightarrow> Some (Inr None)
                        | Some best \<Rightarrow>
                            if max_length s > seed_length then Some (Inr (Some best))
                            else Some (Inr None))))"

text \<open>
  The parameters of \<open>prime_search\<close>: the memory parameters for \<open>memory_limit_gb\<close> and
  for \<open>search_memory = min(memory_limit_gb * 2.0, 50.0)\<close>, and the scaling.
\<close>

record priming_model =
  memory_limit :: memory_model
  search_memory :: memory_model
  scaled_length :: scaling

text \<open>
  The loop \<open>while current_dim < target_dimension\<close> of \<open>prime_search\<close>; \<open>None\<close> is a run
  in which a call of \<open>pruned_bfs_search_from_seed\<close> never returns.
\<close>

partial_function (option) prime_loop ::
  "priming_model \<Rightarrow> int \<Rightarrow> int list \<Rightarrow> int \<Rightarrow> (error + int list) option" where
  "prime_loop pm target_dimension current_snake current_dim =
     (if current_dim < target_dimension then
        (case SnakeNode current_snake (current_dim + 1) of
           Inl e \<Rightarrow> if is_ValueError e then Some (Inr current_snake) else Some (Inl e)
         | Inr initial_node \<Rightarrow>
             (case pruned_bfs_search_from_seed (scaled_length pm)
                     (if current_dim + 1 \<ge> 14 then search_memory pm else memory_limit pm)
                     initial_node (current_dim + 1)
                     (if current_dim + 1 \<ge> 14 then 200000 else 50000) 1 of
                None \<Rightarrow> None
              | Some (Inl e) \<Rightarrow> Some (Inl e)
              | Some (Inr None) \<Rightarrow> Some (Inr current_snake)
              | Some (Inr (Some extended_snake_node)) \<Rightarrow>
                  if get_length extended_snake_node > int (length current_snake)
                  then prime_loop pm target_dimension
                         (transition_sequence extended_snake_node) (current_dim + 1)
                  else Some (Inr current_snake)))
      else Some (Inr current_snake))"

declare prime_loop.simps [code]

definition prime_search :: "priming_model \<Rightarrow> int list \<Rightarrow> int \<Rightarrow> (error + int list) option" where
  "prime_search pm lower_dimension_snake target_dimension =
     (let current_snake = lower_dimension_snake;
          current_dim = detect_dimension current_snake
      in if current_dim \<ge> target_dimension then Some (Inr current_snake)
         else prime_loop pm target_dimension current_snake current_dim)"
section \<open>Notions used in the statements\<close>

text \<open>The vertices visited after each transition, starting from \<open>cur\<close>.\<close>

fun walk :: "int \<Rightarrow> int list \<Rightarrow> int list" where
  "walk cur [] = []"
| "walk cur (t # ts) = (cur XOR push_bit (nat t) 1) # walk (cur XOR push_bit (nat t) 1) ts"

text \<open>The two conditions of a snake, on a vertex sequence.\<close>

definition consecutive_ok :: "int list \<Rightarrow> bool" where
  "consecutive_ok vs = (\<forall>i. i + 1 < length vs \<longrightarrow> hamming_distance (vs ! i) (vs ! (i + 1)) = 1)"

definition non_consecutive_ok :: "int list \<Rightarrow> bool" where
  "non_consecutive_ok vs =
     (\<forall>i j. j + 2 \<le> i \<and> i < length vs \<longrightarrow> 1 < hamming_distance (vs ! i) (vs ! j))"

text \<open>
  The representation invariant of a bitmap: the sizes fit the dimension, and no bit
  beyond the \<open>2 ^ n\<close> vertex bits is set.
\<close>

definition bm_ok :: "hypercube_bitmap \<Rightarrow> bool" where
  "bm_ok b \<longleftrightarrow>
     1 \<le> bm_dimension b \<and>
     num_vertices b = 2 ^ nat (bm_dimension b) \<and>
     num_words b = (num_vertices b + 63) div 64 \<and>
     length (bitmap b) = nat (num_words b) \<and>
     (\<forall>i j. i < length (bitmap b) \<and> j < 64 \<and> bit (bitmap b ! i) j
            \<longrightarrow> 64 * int i + int j < num_vertices b)"

text \<open>The bit of vertex \<open>v\<close>.\<close>

definition marked :: "hypercube_bitmap \<Rightarrow> int \<Rightarrow> bool" where
  "marked b v \<longleftrightarrow> bit (bitmap b ! nat (v div 64)) (nat (v mod 64))"

definition set_result :: "hypercube_bitmap \<Rightarrow> int \<Rightarrow> hypercube_bitmap" where
  "set_result b v =
     b\<lparr>bitmap := (bitmap b)[nat (v div 64) := (bitmap b ! nat (v div 64)) OR push_bit (nat (v mod 64)) 1]\<rparr>"

text \<open>The marked and the free vertices of a bitmap.\<close>

definition marked_vertices :: "hypercube_bitmap \<Rightarrow> int set" where
  "marked_vertices b = {v. 0 \<le> v \<and> v < num_vertices b \<and> marked b v}"

definition unmarked_vertices :: "hypercube_bitmap \<Rightarrow> int set" where
  "unmarked_vertices b = {v. 0 \<le> v \<and> v < num_vertices b \<and> \<not> marked b v}"

text \<open>
  A bitmap of dimension \<open>d\<close> that satisfies the representation invariant, and a
  transition sequence whose elements all lie in \<open>[0, d)\<close>.
\<close>

definition bm_for :: "int \<Rightarrow> hypercube_bitmap \<Rightarrow> bool" where
  "bm_for d b \<longleftrightarrow> bm_ok b \<and> bm_dimension b = d"

definition in_range :: "int \<Rightarrow> int list \<Rightarrow> bool" where
  "in_range d ts = list_all (\<lambda>t. 0 \<le> t \<and> t < d) ts"

text \<open>
  The vertices on the path of a transition sequence from the origin, and the vertices that
  the construction of a node marks: the path and its neighbours along the dimensions the
  sequence uses.
\<close>

definition path :: "int list \<Rightarrow> int list" where
  "path ts = 0 # walk 0 ts"

definition marked_set :: "int list \<Rightarrow> int set" where
  "marked_set ts = set (path ts) \<union> {w XOR 2 ^ nat k | w k. w \<in> set (path ts) \<and> k \<in> set ts}"

text \<open>
  A node as the constructor builds it: the fields of a node are not assigned after
  construction, so the nodes of a run are the values of \<open>SnakeNode\<close>.
\<close>

definition is_SnakeNode :: "snake_node \<Rightarrow> bool" where
  "is_SnakeNode p \<longleftrightarrow> SnakeNode (transition_sequence p) (dimension p) = Inr p"

text \<open>
  The bitmaps that the interface of \<open>HypercubeBitmap\<close> produces: the constructor and the
  methods that write the array.
\<close>

inductive is_HypercubeBitmap :: "hypercube_bitmap \<Rightarrow> bool" where
  new: "HypercubeBitmap d = Inr b \<Longrightarrow> is_HypercubeBitmap b"
| set_bit: "is_HypercubeBitmap b \<Longrightarrow> set_bit_bm b v = Inr b' \<Longrightarrow> is_HypercubeBitmap b'"
| clear_bit: "is_HypercubeBitmap b \<Longrightarrow> clear_bit b v = Inr b' \<Longrightarrow> is_HypercubeBitmap b'"
| clear_all: "is_HypercubeBitmap b \<Longrightarrow> clear_all b = Inr b' \<Longrightarrow> is_HypercubeBitmap b'"
| copy: "is_HypercubeBitmap b \<Longrightarrow> copy_bitmap b = Inr b' \<Longrightarrow> is_HypercubeBitmap b'"

text \<open>The value of \<open>max_dimension\<close> when the loop of \<open>is_canonical\<close> ends.\<close>

fun canonical_max :: "int \<Rightarrow> int list \<Rightarrow> int" where
  "canonical_max m [] = m"
| "canonical_max m (dim # rest) = canonical_max (if dim = m + 1 then dim else m) rest"

text \<open>
  What holds of the nodes of the frontier of level \<open>k\<close> in dimension \<open>d\<close>, and of a state
  in which a best snake has been recorded.
\<close>

definition frontier_node :: "int \<Rightarrow> nat \<Rightarrow> snake_node \<Rightarrow> bool" where
  "frontier_node d k p \<longleftrightarrow>
     is_SnakeNode p \<and> dimension p = d \<and> length (transition_sequence p) = k
     \<and> is_canonical (transition_sequence p) \<and> distinct (transition_sequence p)"

definition best_recorded :: "bfs_state \<Rightarrow> bool" where
  "best_recorded s \<longleftrightarrow>
     (\<exists>b. best_snake s = Some b \<and> is_SnakeNode b \<and> get_length b = max_length s
          \<and> 1 \<le> max_length s)"

text \<open>
  The state while the next level is built from the frontier of level \<open>k\<close>: the children
  found so far are nodes of level \<open>k + 1\<close>, and a best snake has been recorded as soon as
  there is a child.
\<close>

definition building :: "int \<Rightarrow> nat \<Rightarrow> bfs_state \<Rightarrow> bool" where
  "building d k s \<longleftrightarrow>
     list_all (frontier_node d (Suc k)) (next_level s)
     \<and> (if best_snake s = None then max_length s = 0 \<and> next_level s = [] else best_recorded s)"

text \<open>
  The state at the head of the loop of \<open>pruned_bfs_search\<close> after \<open>k\<close> iterations: at the
  start it is the initial state; later the frontier consists of nodes of level \<open>k\<close> and a
  best snake has been recorded.
\<close>

definition level_state :: "int \<Rightarrow> nat \<Rightarrow> bfs_state \<Rightarrow> bool" where
  "level_state d k s \<longleftrightarrow>
     (if k = 0 then (case SnakeNode [] d of Inl e \<Rightarrow> False | Inr root \<Rightarrow> s = bfs_initial_state root)
      else list_all (frontier_node d k) (current_level s) \<and> best_recorded s)"

text \<open>
  An instance of the memory parameters, for evaluation: the sizes of CPython 3 on a 64-bit
  platform and the default limit of 18 GB, in exact arithmetic.
\<close>

definition memory_18gb :: memory_model where
  "memory_18gb =
     \<lparr>getsizeof_list = (\<lambda>ts. 56 + 8 * int (length ts)),
      getsizeof_int0 = 28,
      getsizeof_array = (\<lambda>ws. 80 + 8 * int (length ws)),
      exceeds_limit = (\<lambda>total_bytes. total_bytes > 18 * 1024 ^ 3),
      max_nodes_for = (\<lambda>bytes_per_node. Inr ((18 * 1024 ^ 3) div bytes_per_node))\<rparr>"


text \<open>
  The memory parameters that \<open>prime_search\<close> passes on in dimension 14 and above when it
  is called with the default limit: \<open>min(18.0 * 2.0, 50.0)\<close> is 36 GB.
\<close>

definition memory_36gb :: memory_model where
  "memory_36gb =
     \<lparr>getsizeof_list = (\<lambda>ts. 56 + 8 * int (length ts)),
      getsizeof_int0 = 28,
      getsizeof_array = (\<lambda>ws. 80 + 8 * int (length ws)),
      exceeds_limit = (\<lambda>total_bytes. total_bytes > 36 * 1024 ^ 3),
      max_nodes_for = (\<lambda>bytes_per_node. Inr ((36 * 1024 ^ 3) div bytes_per_node))\<rparr>"

text \<open>An exception of the conversion in \<open>prune_by_fitness\<close>.\<close>

definition quota_error :: "memory_model \<Rightarrow> error \<Rightarrow> bool" where
  "quota_error mm e \<longleftrightarrow> (\<exists>bytes_per_node. max_nodes_for mm bytes_per_node = Inl e)"

text \<open>
  The free subgraph of a node: its vertices are the unmarked vertices, its edges the
  hypercube edges between two of them. \<open>reachable_free p start\<close> are the free vertices
  reachable from \<open>start\<close> in it.
\<close>

definition free_edges :: "snake_node \<Rightarrow> (int \<times> int) set" where
  "free_edges p =
     {(u, v). u \<in> unmarked_vertices (vertices_bitmap p)
            \<and> v \<in> unmarked_vertices (vertices_bitmap p)
            \<and> (\<exists>k < nat (dimension p). v = u XOR 2 ^ k)}"

definition reachable_free :: "snake_node \<Rightarrow> int \<Rightarrow> int set" where
  "reachable_free p start =
     {v \<in> unmarked_vertices (vertices_bitmap p). (start, v) \<in> (free_edges p)\<^sup>*}"

section \<open>Loops\<close>

lemma and_then_Inr [simp]: "and_then (Inr x) f = f x"
  by (simp add: and_then_def)

lemma and_then_Inl [simp]: "and_then (Inl e) f = Inl e"
  by (simp add: and_then_def)

lemma for_each_append:
  "for_each (xs @ ys) body s =
     (case for_each xs body s of Inl e \<Rightarrow> Inl e | Inr s' \<Rightarrow> for_each ys body s')"
  by (induction xs arbitrary: s) (auto split: sum.splits)

section \<open>The codec\<close>

lemma bit_length_nat_pow2: "bit_length_nat (2 ^ k) = Suc k"
  by (induction k) (simp_all add: bit_length_nat.simps)

lemma bit_length_push_bit: "bit_length (2 ^ k) = int k + 1"
  by (simp add: bit_length_def bit_length_nat_pow2 nat_power_eq)

lemma pow2_and_pred: "(2::int) ^ k AND (2 ^ k - 1) = 0"
  by (simp flip: mask_eq_exp_minus_1 take_bit_eq_mask)

lemma length_walk [simp]: "length (walk s seq) = length seq"
  by (induction seq arbitrary: s) auto

lemma ttv_loop:
  "\<forall>t\<in>set seq. 0 \<le> t \<and> t < d \<Longrightarrow>
   for_each seq (transition_to_vertex_step d) (vs, cur) = Inr (vs @ walk cur seq, last (cur # walk cur seq))"
  by (induction seq arbitrary: vs cur) (auto simp: transition_to_vertex_step_def Let_def)

lemma walk_nth:
  "i < length seq \<Longrightarrow> (start # walk start seq) ! (i + 1) = ((start # walk start seq) ! i) XOR push_bit (nat (seq ! i)) 1"
proof (induction seq arbitrary: start i)
  case Nil then show ?case by simp
next
  case (Cons t ts)
  show ?case
  proof (cases i)
    case 0 then show ?thesis by simp
  next
    case (Suc j)
    with Cons.prems have "j < length ts" by simp
    from Cons.IH[OF this, of "start XOR push_bit (nat t) 1"] Suc show ?thesis by simp
  qed
qed

lemma vtt_prefix:
  assumes "\<forall>t\<in>set seq. 0 \<le> t"
  shows "n \<le> length seq \<Longrightarrow>
    for_each [0 ..< n] (vertex_to_transition_step (start # walk start seq)) [] = Inr (take n seq)"
proof (induction n)
  case 0 show ?case by simp
next
  case (Suc n)
  then have n: "n < length seq" by simp
  have nn: "0 \<le> seq ! n" using assms n by simp
  let ?vs = "start # walk start seq"
  have x: "(?vs ! n) XOR (?vs ! (n + 1)) = push_bit (nat (seq ! n)) 1"
    using walk_nth[OF n, of start] by (simp flip: xor.assoc)
  have step: "vertex_to_transition_step ?vs n (take n seq) = Inr (take n seq @ [seq ! n])"
    unfolding vertex_to_transition_step_def x Let_def
    using nn by (simp add: pow2_and_pred bit_length_push_bit)
  show ?case using Suc n step by (simp add: for_each_append take_Suc_conv_app_nth)
qed

text \<open>
  Claim C2. For every dimension \<open>d \<ge> 1\<close> and every transition sequence whose elements
  all lie in \<open>[0, d)\<close>, converting to vertices (from the origin) succeeds, and converting
  the vertices back gives the sequence again.
\<close>

theorem roundtrip:
  assumes "1 \<le> d" and "\<forall>t\<in>set seq. 0 \<le> t \<and> t < d"
  shows "\<exists>vs. transition_to_vertex seq d 0 = Inr vs \<and> vertex_to_transition vs = Inr seq"
proof -
  have 1: "transition_to_vertex seq d 0 = Inr (0 # walk 0 seq)"
    using ttv_loop[OF assms(2), of "[0]" 0] by (simp add: transition_to_vertex_def)
  have "vertex_to_transition (0 # walk 0 seq) = Inr seq"
    using vtt_prefix[of seq "length seq" 0] assms(2) by (cases seq) (simp_all add: vertex_to_transition_def)
  with 1 show ?thesis by blast
qed

theorem roundtrip_witness:
  "(1::int) \<le> 3 \<and> list_all (\<lambda>t. 0 \<le> t \<and> t < 3) [0, 1, 2, 0 :: int]
   \<and> (\<exists>vs. transition_to_vertex [0, 1, 2, 0] 3 0 = Inr vs
            \<and> vertex_to_transition vs = Inr [0, 1, 2, 0])"
  using roundtrip [of 3 "[0, 1, 2, 0]"] by simp

section \<open>The validator\<close>

lemma for_return_append:
  "for_return (xs @ ys) body =
     (case for_return xs body of Some r \<Rightarrow> Some r | None \<Rightarrow> for_return ys body)"
  by (induction xs) (auto split: option.splits)

lemma for_return_None_iff: "for_return xs body = None \<longleftrightarrow> (\<forall>x\<in>set xs. body x = None)"
  by (induction xs) (auto split: option.splits)

lemma for_return_upt_Some:
  "for_return [a ..< b] body = Some r \<Longrightarrow>
   \<exists>x. a \<le> x \<and> x < b \<and> body x = Some r \<and> (\<forall>y. a \<le> y \<and> y < x \<longrightarrow> body y = None)"
proof (induction b)
  case 0 then show ?case by simp
next
  case (Suc b)
  show ?case
  proof (cases "a \<le> b")
    case False with Suc.prems show ?thesis by simp
  next
    case True
    show ?thesis
    proof (cases "for_return [a ..< b] body")
      case None
      with Suc.prems True have "body b = Some r"
        by (simp add: for_return_append split: option.splits)
      moreover from None have "\<forall>y. a \<le> y \<and> y < b \<longrightarrow> body y = None"
        by (simp add: for_return_None_iff)
      ultimately show ?thesis using True by (intro exI[of _ b]) simp
    next
      case (Some r')
      with Suc.prems True have "r' = r" by (simp add: for_return_append)
      with Some Suc.IH obtain x where "a \<le> x" "x < b" "body x = Some r"
        "\<forall>y. a \<le> y \<and> y < x \<longrightarrow> body y = None" by blast
      then show ?thesis by (intro exI[of _ x]) simp
    qed
  qed
qed

lemma consecutive_loop_None:
  "for_return [0 ..< length vs - 1] (check_consecutive vs) = None \<longleftrightarrow> consecutive_ok vs"
  by (auto simp: for_return_None_iff consecutive_ok_def check_consecutive_def Let_def
      split: if_splits) 

lemma non_consecutive_loop_None:
  "for_return [2 ..< length vs]
     (\<lambda>i. for_return [0 ..< i - 1] (check_non_consecutive vs i)) = None
   \<longleftrightarrow> non_consecutive_ok vs"
proof
  assume L: "for_return [2 ..< length vs]
     (\<lambda>i. for_return [0 ..< i - 1] (check_non_consecutive vs i)) = None"
  show "non_consecutive_ok vs"
    unfolding non_consecutive_ok_def
  proof (intro allI impI)
    fix i j assume ij: "j + 2 \<le> i \<and> i < length vs"
    then have "i \<in> set [2 ..< length vs]" "j \<in> set [0 ..< i - 1]" by auto
    with L have "check_non_consecutive vs i j = None"
      by (simp only: for_return_None_iff)
    then show "1 < hamming_distance (vs ! i) (vs ! j)"
      by (simp add: check_non_consecutive_def Let_def split: if_splits)
  qed
next
  assume ok: "non_consecutive_ok vs"
  have "check_non_consecutive vs i j = None" if "2 \<le> i" "i < length vs" "j < i - 1" for i j
  proof -
    from that have "j + 2 \<le> i \<and> i < length vs" by arith
    with ok have "1 < hamming_distance (vs ! i) (vs ! j)"
      unfolding non_consecutive_ok_def by blast
    then show ?thesis by (simp add: check_non_consecutive_def Let_def)
  qed
  then show "for_return [2 ..< length vs]
     (\<lambda>i. for_return [0 ..< i - 1] (check_non_consecutive vs i)) = None"
    by (simp add: for_return_None_iff)
qed

text \<open>
  Claim C3. \<open>validate_snake\<close> returns \<open>True\<close> exactly when the sequence has fewer than
  two vertices, or every consecutive pair has Hamming distance 1 and every pair at index
  distance at least 2 has Hamming distance greater than 1. A violation among the
  consecutive pairs is reported first (the one of least index), before any violation among
  the non-consecutive pairs, and the reason names the offending index pair and its
  distance.
\<close>

theorem validate_snake_spec:
  "(fst (validate_snake vs) \<longleftrightarrow> length vs < 2 \<or> (consecutive_ok vs \<and> non_consecutive_ok vs))
   \<and> (\<not> consecutive_ok vs \<longrightarrow>
        (\<exists>i. i + 1 < length vs \<and> hamming_distance (vs ! i) (vs ! (i + 1)) \<noteq> 1
           \<and> (\<forall>k<i. hamming_distance (vs ! k) (vs ! (k + 1)) = 1)
           \<and> validate_snake vs
               = (False, ConsecutiveBad i (i + 1) (hamming_distance (vs ! i) (vs ! (i + 1))))))
   \<and> (consecutive_ok vs \<and> \<not> non_consecutive_ok vs \<longrightarrow>
        (\<exists>i j. j + 2 \<le> i \<and> i < length vs \<and> hamming_distance (vs ! i) (vs ! j) \<le> 1
           \<and> validate_snake vs
               = (False, NonConsecutiveBad j i (hamming_distance (vs ! i) (vs ! j)))))"
proof (intro conjI impI)
  have short: "length vs < 2 \<Longrightarrow> consecutive_ok vs"
    by (auto simp: consecutive_ok_def)
  have bad1: "\<exists>i. i + 1 < length vs \<and> hamming_distance (vs ! i) (vs ! (i + 1)) \<noteq> 1
           \<and> (\<forall>k<i. hamming_distance (vs ! k) (vs ! (k + 1)) = 1)
           \<and> validate_snake vs
               = (False, ConsecutiveBad i (i + 1) (hamming_distance (vs ! i) (vs ! (i + 1))))"
    if nc: "\<not> consecutive_ok vs"
  proof -
    from nc short have len: "\<not> length vs < 2" by blast
    from nc obtain r where r: "for_return [0 ..< length vs - 1] (check_consecutive vs) = Some r"
      using consecutive_loop_None[of vs] by (cases "for_return [0 ..< length vs - 1] (check_consecutive vs)") auto
    from for_return_upt_Some[OF r] obtain x where x: "x < length vs - 1"
      "check_consecutive vs x = Some r" "\<forall>y. y < x \<longrightarrow> check_consecutive vs y = None" by auto
    from x(2) have rr: "r = (False, ConsecutiveBad x (x + 1) (hamming_distance (vs ! x) (vs ! (x + 1))))"
      and ne: "hamming_distance (vs ! x) (vs ! (x + 1)) \<noteq> 1"
      by (auto simp: check_consecutive_def Let_def split: if_splits)
    from x(3) have prev: "\<forall>k<x. hamming_distance (vs ! k) (vs ! (k + 1)) = 1"
      by (auto simp: check_consecutive_def Let_def split: if_splits)
    have "validate_snake vs = r" using len r by (simp add: validate_snake_def Let_def)
    with rr ne prev x(1) show ?thesis by (intro exI[of _ x]) auto
  qed
  have bad2: "\<exists>i j. j + 2 \<le> i \<and> i < length vs \<and> hamming_distance (vs ! i) (vs ! j) \<le> 1
           \<and> validate_snake vs
               = (False, NonConsecutiveBad j i (hamming_distance (vs ! i) (vs ! j)))"
    if c: "consecutive_ok vs" and nn: "\<not> non_consecutive_ok vs"
  proof -
    have len: "\<not> length vs < 2" using nn by (auto simp: non_consecutive_ok_def)
    from nn obtain r where r: "for_return [2 ..< length vs]
     (\<lambda>i. for_return [0 ..< i - 1] (check_non_consecutive vs i)) = Some r"
      using non_consecutive_loop_None[of vs] by fastforce
    from for_return_upt_Some[OF r] obtain i where i: "2 \<le> i" "i < length vs"
      "for_return [0 ..< i - 1] (check_non_consecutive vs i) = Some r" by auto
    from for_return_upt_Some[OF i(3)] obtain j where j: "j < i - 1"
      "check_non_consecutive vs i j = Some r" by auto
    from j(2) have rr: "r = (False, NonConsecutiveBad j i (hamming_distance (vs ! i) (vs ! j)))"
      and le: "hamming_distance (vs ! i) (vs ! j) \<le> 1"
      by (auto simp: check_non_consecutive_def Let_def split: if_splits)
    have "validate_snake vs = r" using len r c consecutive_loop_None[of vs]
      by (simp add: validate_snake_def Let_def)
    with rr le i j show ?thesis by (intro exI[of _ i] exI[of _ j]) auto
  qed
  show "fst (validate_snake vs) \<longleftrightarrow> length vs < 2 \<or> (consecutive_ok vs \<and> non_consecutive_ok vs)"
  proof (cases "length vs < 2")
    case True then show ?thesis by (simp add: validate_snake_def Let_def)
  next
    case False
    show ?thesis
    proof (cases "consecutive_ok vs")
      case nc: False
      from bad1[OF nc] show ?thesis using nc False by auto
    next
      case c: True
      show ?thesis
      proof (cases "non_consecutive_ok vs")
        case True
        with c False show ?thesis
          using consecutive_loop_None[of vs] non_consecutive_loop_None[of vs]
          by (simp add: validate_snake_def Let_def)
      next
        case nn: False
        from bad2[OF c nn] show ?thesis using nn False by auto
      qed
    qed
  qed
  { assume "\<not> consecutive_ok vs" from bad1[OF this]
    show "\<exists>i. i + 1 < length vs \<and> hamming_distance (vs ! i) (vs ! (i + 1)) \<noteq> 1
           \<and> (\<forall>k<i. hamming_distance (vs ! k) (vs ! (k + 1)) = 1)
           \<and> validate_snake vs
               = (False, ConsecutiveBad i (i + 1) (hamming_distance (vs ! i) (vs ! (i + 1))))" . }
  { assume "consecutive_ok vs \<and> \<not> non_consecutive_ok vs"
    then show "\<exists>i j. j + 2 \<le> i \<and> i < length vs \<and> hamming_distance (vs ! i) (vs ! j) \<le> 1
           \<and> validate_snake vs
               = (False, NonConsecutiveBad j i (hamming_distance (vs ! i) (vs ! j)))"
      using bad2 by blast }
qed

lemma consecutive_ok_code [code]:
  "consecutive_ok vs =
     list_all (\<lambda>i. hamming_distance (vs ! i) (vs ! (i + 1)) = 1) [0 ..< length vs - 1]"
  by (auto simp: consecutive_ok_def list_all_iff)

lemma non_consecutive_ok_code [code]:
  "non_consecutive_ok vs =
     list_all (\<lambda>i. list_all (\<lambda>j. 1 < hamming_distance (vs ! i) (vs ! j)) [0 ..< i - 1])
       [2 ..< length vs]"
proof -
  have "j + 2 \<le> i \<longleftrightarrow> 2 \<le> i \<and> j < i - 1" for i j :: nat by arith
  then show ?thesis by (auto simp: non_consecutive_ok_def list_all_iff)
qed

theorem validate_snake_spec_witness:
  "\<not> consecutive_ok [0, 3, 0]
   \<and> (\<exists>i. validate_snake [0, 3, 0]
            = (False, ConsecutiveBad i (i + 1) (hamming_distance ([0, 3, 0] ! i) ([0, 3, 0] ! (i + 1)))))
   \<and> consecutive_ok [0, 1, 0] \<and> \<not> non_consecutive_ok [0, 1, 0]
   \<and> (\<exists>i j. validate_snake [0, 1, 0]
            = (False, NonConsecutiveBad j i (hamming_distance ([0, 1, 0] ! i) ([0, 1, 0] ! j))))
   \<and> consecutive_ok [0, 1, 3, 7, 6] \<and> non_consecutive_ok [0, 1, 3, 7, 6]
   \<and> fst (validate_snake [0, 1, 3, 7, 6])"
proof -
  have a: "\<not> consecutive_ok [0, 3, 0]" by code_simp
  have b: "consecutive_ok [0, 1, 0]" "\<not> non_consecutive_ok [0, 1, 0]" by code_simp+
  have c: "consecutive_ok [0, 1, 3, 7, 6]" "non_consecutive_ok [0, 1, 3, 7, 6]" by code_simp+
  from a validate_snake_spec [of "[0, 3, 0]"]
  have 1: "\<exists>i. validate_snake [0, 3, 0]
            = (False, ConsecutiveBad i (i + 1) (hamming_distance ([0, 3, 0] ! i) ([0, 3, 0] ! (i + 1))))"
    by blast
  from b validate_snake_spec [of "[0, 1, 0]"]
  have 2: "\<exists>i j. validate_snake [0, 1, 0]
            = (False, NonConsecutiveBad j i (hamming_distance ([0, 1, 0] ! i) ([0, 1, 0] ! j)))"
    by blast
  from c validate_snake_spec [of "[0, 1, 3, 7, 6]"]
  have 3: "fst (validate_snake [0, 1, 3, 7, 6])" by blast
  from a b c 1 2 3 show ?thesis by blast
qed

section \<open>The bitmap\<close>

lemma and_63: "(v::int) AND 63 = v mod 64"
proof -
  have "v AND mask 6 = v mod 2 ^ 6" by (simp flip: take_bit_eq_mask add: take_bit_eq_mod)
  then show ?thesis by (simp add: mask_eq_exp_minus_1)
qed

lemma drop_6: "drop_bit 6 (v::int) = v div 64"
  by (simp add: drop_bit_eq_div)

lemma word_idx_bound:
  assumes "bm_ok b" "0 \<le> v" "v < num_vertices b"
  shows "nat (v div 64) < length (bitmap b)"
proof -
  have "v div 64 < (num_vertices b + 63) div 64" using assms(2,3) by linarith
  moreover have "0 \<le> v div 64" using assms(2) by simp
  ultimately show ?thesis using assms(1) by (simp add: bm_ok_def)
qed

lemma get_bit_ok:
  assumes "bm_ok b" "0 \<le> v" "v < num_vertices b"
  shows "get_bit b v = Inr (marked b v)"
  using assms word_idx_bound[OF assms]
  by (simp add: get_bit_def and_63 drop_6 marked_def Let_def bit_iff_and_push_bit_not_eq_0)

lemma set_bit_ok:
  assumes "bm_ok b" "0 \<le> v" "v < num_vertices b"
  shows "set_bit_bm b v = Inr (set_result b v)"
  using assms word_idx_bound[OF assms]
  by (simp add: set_bit_bm_def and_63 drop_6 set_result_def Let_def)

lemma divmod_eq: "(u::int) div 64 = v div 64 \<Longrightarrow> u mod 64 = v mod 64 \<Longrightarrow> u = v"
  by (metis div_mult_mod_eq)

lemma marked_set_result:
  assumes "bm_ok b" "0 \<le> v" "v < num_vertices b" "0 \<le> u"
  shows "marked (set_result b v) u \<longleftrightarrow> u = v \<or> marked b u"
proof (cases "u div 64 = v div 64")
  case True
  have lt: "nat (v div 64) < length (bitmap b)" using word_idx_bound[OF assms(1-3)] .
  have m: "nat (u mod 64) < 64" "nat (v mod 64) < 64" by auto
  have "nat (u mod 64) = nat (v mod 64) \<longleftrightarrow> u = v"
    using True divmod_eq[of u v] by (auto simp: nat_eq_iff)
  then show ?thesis using True lt m
    by (auto simp: marked_def set_result_def bit_simps)
next
  case False
  then have "nat (u div 64) \<noteq> nat (v div 64)" using assms(2,4)
    by (simp add: nat_eq_iff pos_imp_zdiv_nonneg_iff)
  moreover have "u \<noteq> v" using False by auto
  ultimately show ?thesis by (simp add: marked_def set_result_def)
qed

lemma bm_ok_set_result:
  assumes "bm_ok b" "0 \<le> v" "v < num_vertices b"
  shows "bm_ok (set_result b v)"
proof -
  have lt: "nat (v div 64) < length (bitmap b)" using word_idx_bound[OF assms(1-3)] .
  have old: "64 * int i + int j < num_vertices b"
    if "i < length (bitmap b)" "j < 64" "bit (bitmap b ! i) j" for i j
    using assms(1) that unfolding bm_ok_def by blast
  have pad: "64 * int i + int j < num_vertices b"
    if "i < length (bitmap b)" "j < 64"
       "bit ((bitmap b)[nat (v div 64) := (bitmap b ! nat (v div 64)) OR push_bit (nat (v mod 64)) 1] ! i) j"
    for i j
  proof (cases "i = nat (v div 64)")
    case False
    with that old show ?thesis by simp
  next
    case True
    with that lt have "bit (bitmap b ! i) j \<or> j = nat (v mod 64)"
      by (auto simp: bit_simps)
    then show ?thesis
    proof
      assume "bit (bitmap b ! i) j" with that old show ?thesis by simp
    next
      assume j: "j = nat (v mod 64)"
      have "0 \<le> v div 64" using assms(2) by (simp add: pos_imp_zdiv_nonneg_iff)
      then have "64 * int i + int j = 64 * (v div 64) + v mod 64" using True j by simp
      also have "\<dots> = v" by simp
      finally show ?thesis using assms(3) by simp
    qed
  qed
  show ?thesis using assms(1) pad by (simp add: bm_ok_def set_result_def)
qed

lemma set_result_fields [simp]:
  "num_vertices (set_result b v) = num_vertices b"
  "bm_dimension (set_result b v) = bm_dimension b"
  "num_words (set_result b v) = num_words b"
  by (simp_all add: set_result_def)

lemma HypercubeBitmap_ok:
  assumes "1 \<le> d"
  shows "\<exists>b. HypercubeBitmap d = Inr b \<and> bm_ok b \<and> bm_dimension b = d
            \<and> (\<forall>v. 0 \<le> v \<and> v < num_vertices b \<longrightarrow> \<not> marked b v)"
proof -
  let ?nv = "(2::int) ^ nat d"
  let ?b = "\<lparr>bm_dimension = d, num_vertices = ?nv, num_words = (?nv + 63) div 64,
             bitmap = replicate (nat ((?nv + 63) div 64)) (0 :: 64 word)\<rparr>"
  have 1: "HypercubeBitmap d = Inr ?b" using assms by (simp add: HypercubeBitmap_def Let_def)
  have 2: "bm_ok ?b" using assms by (auto simp: bm_ok_def)
  have 3: "\<not> marked ?b v" if "0 \<le> v \<and> v < ?nv" for v
  proof -
    have "nat (v div 64) < length (bitmap ?b)" using word_idx_bound[OF 2, of v] that by simp
    then show ?thesis by (simp add: marked_def)
  qed
  show ?thesis using 1 2 3 by (intro exI[of _ ?b]) simp
qed

section \<open>Counting the free vertices\<close>

lemma bits_nat_unfold:
  "{j. bit (n::nat) j} = (if odd n then {0} else {}) \<union> Suc ` {j. bit (n div 2) j}"
proof (intro set_eqI iffI)
  fix j assume "j \<in> {j. bit n j}"
  then show "j \<in> (if odd n then {0} else {}) \<union> Suc ` {j. bit (n div 2) j}"
    by (cases j) (auto simp: bit_0 bit_Suc)
next
  fix j assume "j \<in> (if odd n then {0} else {}) \<union> Suc ` {j. bit (n div 2) j}"
  then show "j \<in> {j. bit n j}"
    by (auto simp: bit_0 bit_Suc split: if_splits)
qed

lemma count_ones_nat_card: "finite {j. bit n j} \<and> count_ones_nat n = card {j. bit n j}"
proof (induction n rule: count_ones_nat.induct)
  case (1 n)
  show ?case
  proof (cases "n = 0")
    case True then show ?thesis by (simp add: count_ones_nat.simps)
  next
    case False
    from 1[OF False] have fin: "finite {j. bit (n div 2) j}"
      and ih: "count_ones_nat (n div 2) = card {j. bit (n div 2) j}" by simp_all
    have fin': "finite {j. bit n j}"
      by (subst bits_nat_unfold) (use fin in simp)
    have "card {j. bit n j} = card (if odd n then {0::nat} else {}) + card (Suc ` {j. bit (n div 2) j})"
      by (subst bits_nat_unfold, rule card_Un_disjoint) (use fin in auto)
    also have "card (Suc ` {j. bit (n div 2) j}) = card {j. bit (n div 2) j}"
      by (rule card_image) simp
    also have "card (if odd n then {0::nat} else {}) = n mod 2"
      by (auto simp: odd_iff_mod_2_eq_one)
    finally have "card {j. bit n j} = n mod 2 + count_ones_nat (n div 2)" using ih by simp
    with False fin' show ?thesis by (subst count_ones_nat.simps) simp
  qed
qed

lemma count_ones_uint: "count_ones (uint (w :: 64 word)) = card {j. bit w j}"
proof -
  have "nat \<bar>uint w\<bar> = unat w" by simp
  moreover have "{j. bit (unat w) j} = {j. bit w j}"
    by (auto simp: bit_unsigned_iff dest: bit_imp_le_length)
  ultimately show ?thesis using count_ones_nat_card[of "unat w"] by (simp add: count_ones_def)
qed

lemma marked_vertices_card:
  assumes "bm_ok b"
  shows "int (card (marked_vertices b))
           = sum_list (map (\<lambda>word. int (count_ones (uint word))) (bitmap b))"
proof -
  let ?ws = "bitmap b"
  let ?S = "SIGMA i:{..<length ?ws}. {j. bit (?ws ! i) j}"
  let ?f = "\<lambda>(i, j). 64 * int i + int j"
  have lt64: "j < 64" if "bit (?ws ! i) j" for i j
    using bit_imp_le_length[OF that] by simp
  have pad: "64 * int i + int j < num_vertices b"
    if "i < length ?ws" "bit (?ws ! i) j" for i j
    using assms that lt64[OF that(2)] unfolding bm_ok_def by blast
  have inj: "inj_on ?f ?S"
  proof (rule inj_onI, clarify)
    fix i j i' j'
    assume b: "bit (?ws ! i) j" "bit (?ws ! i') j'"
      and e: "64 * int i + int j = 64 * int i' + int j'"
    have j: "j < 64" "j' < 64" using b lt64 by blast+
    have "(64 * int i + int j) div 64 = int i" "(64 * int i' + int j') div 64 = int i'"
      using j by simp_all
    with e have i: "i = i'" by simp
    with e have "j = j'" by simp
    with i show "i = i' \<and> j = j'" by simp
  qed
  have img: "?f ` ?S = marked_vertices b"
  proof (intro set_eqI iffI)
    fix v assume "v \<in> ?f ` ?S"
    then obtain i j where ij: "i < length ?ws" "bit (?ws ! i) j" "v = 64 * int i + int j"
      by auto
    have j: "j < 64" using lt64[OF ij(2)] .
    have "v div 64 = int i" "v mod 64 = int j" using ij(3) j by simp_all
    then have "marked b v" using ij(2) by (simp add: marked_def)
    moreover have "v < num_vertices b" using pad[OF ij(1,2)] ij(3) by simp
    moreover have "0 \<le> v" using ij(3) by simp
    ultimately show "v \<in> marked_vertices b" by (simp add: marked_vertices_def)
  next
    fix v assume "v \<in> marked_vertices b"
    then have v: "0 \<le> v" "v < num_vertices b" "marked b v" by (simp_all add: marked_vertices_def)
    have i: "nat (v div 64) < length ?ws" using word_idx_bound[OF assms v(1,2)] .
    have "bit (?ws ! nat (v div 64)) (nat (v mod 64))" using v(3) by (simp add: marked_def)
    with i have mem: "(nat (v div 64), nat (v mod 64)) \<in> ?S" by simp
    have "v = ?f (nat (v div 64), nat (v mod 64))"
      using v(1) by (simp add: pos_imp_zdiv_nonneg_iff)
    then show "v \<in> ?f ` ?S" using mem by (rule image_eqI)
  qed
  have "card (marked_vertices b) = card ?S"
    using card_image[OF inj] img by simp
  also have "\<dots> = (\<Sum>i\<in>{..<length ?ws}. card {j. bit (?ws ! i) j})"
    by (rule card_SigmaI) simp_all
  also have "\<dots> = (\<Sum>i\<in>{..<length ?ws}. count_ones (uint (?ws ! i)))"
    by (simp add: count_ones_uint)
  finally have "int (card (marked_vertices b)) = (\<Sum>i\<in>{..<length ?ws}. int (count_ones (uint (?ws ! i))))"
    by simp
  also have "\<dots> = (\<Sum>i = 0..<length ?ws. map (\<lambda>word. int (count_ones (uint word))) ?ws ! i)"
    by (intro sum.cong) (auto simp: atLeast0LessThan)
  also have "\<dots> = sum_list (map (\<lambda>word. int (count_ones (uint word))) ?ws)"
    using sum_list_sum_nth[of "map (\<lambda>word. int (count_ones (uint word))) ?ws"] by simp
  finally show ?thesis .
qed

lemma finite_unmarked [simp]: "finite (unmarked_vertices b)"
proof -
  have "unmarked_vertices b \<subseteq> {0 ..< num_vertices b}" by (auto simp: unmarked_vertices_def)
  then show ?thesis by (rule finite_subset) simp
qed

lemma finite_marked [simp]: "finite (marked_vertices b)"
proof -
  have "marked_vertices b \<subseteq> {0 ..< num_vertices b}" by (auto simp: marked_vertices_def)
  then show ?thesis by (rule finite_subset) simp
qed

lemma card_unmarked_marked:
  assumes "0 \<le> num_vertices b"
  shows "int (card (unmarked_vertices b)) = num_vertices b - int (card (marked_vertices b))"
proof -
  have "unmarked_vertices b \<union> marked_vertices b = {0 ..< num_vertices b}"
    by (auto simp: unmarked_vertices_def marked_vertices_def)
  moreover have "unmarked_vertices b \<inter> marked_vertices b = {}"
    by (auto simp: unmarked_vertices_def marked_vertices_def)
  ultimately have "card (unmarked_vertices b) + card (marked_vertices b) = card {0 ..< num_vertices b}"
    using card_Un_disjoint[of "unmarked_vertices b" "marked_vertices b"] by simp
  then show ?thesis using assms by simp
qed

lemma count_unmarked_loop:
  assumes "bm_ok b"
  shows "k \<le> nat (num_vertices b) \<Longrightarrow>
    for_each (map int [0 ..< k])
       (\<lambda>vertex count. and_then (get_bit b vertex)
          (\<lambda>marked. Inr (if \<not> marked then count + 1 else count))) c
     = Inr (c + int (length (filter (\<lambda>n. \<not> marked b (int n)) [0 ..< k])))"
proof (induction k)
  case 0 then show ?case by simp
next
  case (Suc k)
  have g: "get_bit b (int k) = Inr (marked b (int k))"
    using get_bit_ok[OF assms, of "int k"] Suc.prems by simp
  from Suc g show ?case by (simp add: for_each_append)
qed

lemma unmarked_vertices_filter:
  "unmarked_vertices b = int ` set (filter (\<lambda>n. \<not> marked b (int n)) [0 ..< nat (num_vertices b)])"
proof (intro set_eqI iffI)
  fix v assume "v \<in> unmarked_vertices b"
  then have v: "0 \<le> v" "v < num_vertices b" "\<not> marked b v"
    by (simp_all add: unmarked_vertices_def)
  then have "nat v \<in> set (filter (\<lambda>n. \<not> marked b (int n)) [0 ..< nat (num_vertices b)])"
    by simp
  moreover have "v = int (nat v)" using v(1) by simp
  ultimately show "v \<in> int ` set (filter (\<lambda>n. \<not> marked b (int n)) [0 ..< nat (num_vertices b)])"
    by (rule rev_image_eqI)
next
  fix v assume "v \<in> int ` set (filter (\<lambda>n. \<not> marked b (int n)) [0 ..< nat (num_vertices b)])"
  then obtain n where "v = int n" "n < nat (num_vertices b)" "\<not> marked b (int n)" by auto
  then show "v \<in> unmarked_vertices b" by (simp add: unmarked_vertices_def)
qed

lemma count_unmarked_ok:
  assumes "bm_ok b"
  shows "count_unmarked b = Inr (int (card (unmarked_vertices b)))"
proof -
  let ?xs = "filter (\<lambda>n. \<not> marked b (int n)) [0 ..< nat (num_vertices b)]"
  have "card (unmarked_vertices b) = card (set ?xs)"
    unfolding unmarked_vertices_filter by (rule card_image) simp
  also have "\<dots> = length ?xs" by (rule distinct_card) simp
  finally show ?thesis
    using count_unmarked_loop[OF assms, of "nat (num_vertices b)" 0]
    by (simp add: count_unmarked_def)
qed

lemma count_unmarked_fast_ok:
  assumes "bm_ok b"
  shows "count_unmarked_fast b = int (card (unmarked_vertices b))"
proof -
  have nv: "0 \<le> num_vertices b" using assms by (simp add: bm_ok_def)
  show ?thesis
    using card_unmarked_marked[OF nv] marked_vertices_card[OF assms]
    by (simp add: count_unmarked_fast_def)
qed

section \<open>The bitmap of a node\<close>

lemma in_range_iff: "in_range d ts \<longleftrightarrow> (\<forall>t\<in>set ts. 0 \<le> t \<and> t < d)"
  by (simp add: in_range_def list_all_iff)

lemma bm_for_nv: "bm_for d b \<Longrightarrow> num_vertices b = 2 ^ nat d"
  by (simp add: bm_for_def bm_ok_def)

lemma xor_pow_range:
  assumes "0 \<le> v" "v < 2 ^ n" "k < n"
  shows "0 \<le> v XOR 2 ^ k" "v XOR (2::int) ^ k < 2 ^ n"
proof -
  show "0 \<le> v XOR 2 ^ k" using assms(1) by simp
  have "(2::int) ^ k < 2 ^ n" using assms(3) by simp
  then show "v XOR (2::int) ^ k < 2 ^ n" using assms(1,2) by (intro XOR_upper) simp_all
qed

lemma set_bit_for:
  assumes "bm_for d b" "0 \<le> v" "v < 2 ^ nat d"
  shows "set_bit_bm b v = Inr (set_result b v)" "bm_for d (set_result b v)"
    "\<And>u. 0 \<le> u \<Longrightarrow> marked (set_result b v) u \<longleftrightarrow> u = v \<or> marked b u"
proof -
  have ok: "bm_ok b" and nv: "v < num_vertices b"
    using assms bm_for_nv[OF assms(1)] by (simp_all add: bm_for_def)
  show "set_bit_bm b v = Inr (set_result b v)" by (rule set_bit_ok[OF ok assms(2) nv])
  show "bm_for d (set_result b v)"
    using bm_ok_set_result[OF ok assms(2) nv] assms(1) by (simp add: bm_for_def)
  show "\<And>u. 0 \<le> u \<Longrightarrow> marked (set_result b v) u \<longleftrightarrow> u = v \<or> marked b u"
    by (rule marked_set_result[OF ok assms(2) nv])
qed

lemma mark_adjacent_ok:
  assumes "0 \<le> v" "v < 2 ^ nat d"
  shows "bm_for d b \<Longrightarrow> \<forall>k\<in>set used. 0 \<le> k \<and> k < d \<Longrightarrow>
    \<exists>b'. mark_adjacent d v b (Some used) = Inr b' \<and> bm_for d b'
       \<and> (\<forall>u. 0 \<le> u \<longrightarrow> marked b' u = (marked b u \<or> (\<exists>k\<in>set used. u = v XOR 2 ^ nat k)))"
proof (induction used arbitrary: b)
  case Nil
  then show ?case by (simp add: mark_adjacent_def)
next
  case (Cons k ks)
  from Cons.prems have k: "0 \<le> k" "k < d" and ks: "\<forall>k\<in>set ks. 0 \<le> k \<and> k < d" by simp_all
  let ?a = "v XOR 2 ^ nat k"
  have a: "0 \<le> ?a" "?a < 2 ^ nat d"
    using xor_pow_range[OF assms, of "nat k"] k by simp_all
  note sb = set_bit_for[OF Cons.prems(1) a]
  from Cons.IH[OF sb(2) ks] obtain b' where
    b': "mark_adjacent d v (set_result b ?a) (Some ks) = Inr b'" "bm_for d b'"
      "\<forall>u. 0 \<le> u \<longrightarrow> marked b' u = (marked (set_result b ?a) u \<or> (\<exists>k\<in>set ks. u = v XOR 2 ^ nat k))"
    by blast
  have "mark_adjacent d v b (Some (k # ks)) = Inr b'"
    using b'(1) sb(1) k by (simp add: mark_adjacent_def)
  moreover have "\<forall>u. 0 \<le> u \<longrightarrow> marked b' u = (marked b u \<or> (\<exists>k\<in>set (k # ks). u = v XOR 2 ^ nat k))"
    using b'(3) sb(3) by auto
  ultimately show ?case using b'(2) by blast
qed

lemma walk_range:
  "0 \<le> c \<Longrightarrow> c < 2 ^ nat d \<Longrightarrow> in_range d ts \<Longrightarrow> \<forall>w\<in>set (walk c ts). 0 \<le> w \<and> w < 2 ^ nat d"
proof (induction ts arbitrary: c)
  case Nil then show ?case by simp
next
  case (Cons t ts)
  from Cons.prems(3) have t: "0 \<le> t" "t < d" and ts: "in_range d ts"
    by (simp_all add: in_range_def)
  have a: "0 \<le> c XOR 2 ^ nat t" "c XOR 2 ^ nat t < 2 ^ nat d"
    using xor_pow_range[OF Cons.prems(1,2), of "nat t"] t by simp_all
  from Cons.IH[OF a ts] a show ?case by simp
qed

lemma path_range:
  assumes "1 \<le> d" "in_range d ts"
  shows "\<forall>w\<in>set (path ts). 0 \<le> w \<and> w < 2 ^ nat d"
  using walk_range[of 0 d ts] assms by (simp add: path_def)

lemma initialize_loop_ok:
  assumes used: "\<forall>k\<in>set used. 0 \<le> k \<and> k < d"
  shows "bm_for d b \<Longrightarrow> 0 \<le> c \<Longrightarrow> c < 2 ^ nat d \<Longrightarrow> in_range d ts \<Longrightarrow>
    \<exists>b'. for_each ts (initialize_bitmap_step d used) (c, b) = Inr (last (c # walk c ts), b')
       \<and> bm_for d b'
       \<and> (\<forall>u. 0 \<le> u \<longrightarrow> marked b' u =
             (marked b u \<or> u \<in> set (walk c ts)
              \<or> (\<exists>w\<in>set (walk c ts). \<exists>k\<in>set used. u = w XOR 2 ^ nat k)))"
proof (induction ts arbitrary: b c)
  case Nil
  then show ?case by simp
next
  case (Cons t ts)
  from Cons.prems(4) have t: "0 \<le> t" "t < d" and ts: "in_range d ts"
    by (simp_all add: in_range_def)
  let ?c = "c XOR 2 ^ nat t"
  have c': "0 \<le> ?c" "?c < 2 ^ nat d"
    using xor_pow_range[OF Cons.prems(2,3), of "nat t"] t by simp_all
  note sb = set_bit_for[OF Cons.prems(1) c']
  from mark_adjacent_ok[OF c' sb(2) used] obtain b1 where
    b1: "mark_adjacent d ?c (set_result b ?c) (Some used) = Inr b1" "bm_for d b1"
      "\<forall>u. 0 \<le> u \<longrightarrow> marked b1 u = (marked (set_result b ?c) u \<or> (\<exists>k\<in>set used. u = ?c XOR 2 ^ nat k))"
    by blast
  from Cons.IH[OF b1(2) c' ts] obtain b' where
    b': "for_each ts (initialize_bitmap_step d used) (?c, b1) = Inr (last (?c # walk ?c ts), b')"
      "bm_for d b'"
      "\<forall>u. 0 \<le> u \<longrightarrow> marked b' u =
             (marked b1 u \<or> u \<in> set (walk ?c ts)
              \<or> (\<exists>w\<in>set (walk ?c ts). \<exists>k\<in>set used. u = w XOR 2 ^ nat k))"
    by blast
  have step: "initialize_bitmap_step d used t (c, b) = Inr (?c, b1)"
    using t sb(1) b1(1) by (simp add: initialize_bitmap_step_def mark_vertex_def)
  have 1: "for_each (t # ts) (initialize_bitmap_step d used) (c, b)
            = Inr (last (c # walk c (t # ts)), b')"
    using step b'(1) by simp
  have 3: "\<forall>u. 0 \<le> u \<longrightarrow> marked b' u =
             (marked b u \<or> u \<in> set (walk c (t # ts))
              \<or> (\<exists>w\<in>set (walk c (t # ts)). \<exists>k\<in>set used. u = w XOR 2 ^ nat k))"
    using b'(3) b1(3) sb(3) by auto
  from 1 b'(2) 3 show ?case by blast
qed

lemma set_get_used_dimensions [simp]: "set (get_used_dimensions ts) = set ts"
  by (simp add: get_used_dimensions_def)

lemma marked_set_iff:
  "u \<in> marked_set ts \<longleftrightarrow>
     (\<exists>w. (w = 0 \<or> w \<in> set (walk 0 ts)) \<and> (u = w \<or> (\<exists>k\<in>set ts. u = w XOR 2 ^ nat k)))"
  unfolding marked_set_def path_def by auto

lemma initialize_bitmap_ok:
  assumes "1 \<le> d" "in_range d ts"
  shows "\<exists>b. initialize_bitmap ts d = Inr b \<and> bm_for d b
           \<and> (\<forall>u. 0 \<le> u \<and> u < 2 ^ nat d \<longrightarrow> marked b u = (u \<in> marked_set ts))"
proof -
  let ?used = "get_used_dimensions ts"
  have used: "\<forall>k\<in>set ?used. 0 \<le> k \<and> k < d" using assms(2) by (simp add: in_range_iff)
  from HypercubeBitmap_ok[OF assms(1)] obtain b0 where
    b0: "HypercubeBitmap d = Inr b0" "bm_ok b0" "bm_dimension b0 = d"
      "\<forall>v. 0 \<le> v \<and> v < num_vertices b0 \<longrightarrow> \<not> marked b0 v" by blast
  have f0: "bm_for d b0" using b0 by (simp add: bm_for_def)
  have z: "(0::int) \<le> 0" "(0::int) < 2 ^ nat d" by simp_all
  note sb = set_bit_for[OF f0 z]
  from mark_adjacent_ok[OF z sb(2) used] obtain b1 where
    b1: "mark_adjacent d 0 (set_result b0 0) (Some ?used) = Inr b1" "bm_for d b1"
      "\<forall>u. 0 \<le> u \<longrightarrow> marked b1 u = (marked (set_result b0 0) u \<or> (\<exists>k\<in>set ?used. u = 0 XOR 2 ^ nat k))"
    by blast
  from initialize_loop_ok[OF used b1(2) z assms(2)] obtain b2 where
    b2: "for_each ts (initialize_bitmap_step d ?used) (0, b1) = Inr (last (0 # walk 0 ts), b2)"
      "bm_for d b2"
      "\<forall>u. 0 \<le> u \<longrightarrow> marked b2 u =
             (marked b1 u \<or> u \<in> set (walk 0 ts)
              \<or> (\<exists>w\<in>set (walk 0 ts). \<exists>k\<in>set ?used. u = w XOR 2 ^ nat k))"
    by blast
  have 1: "initialize_bitmap ts d = Inr b2"
    using b0(1) sb(1) b1(1) b2(1) by (simp add: initialize_bitmap_def mark_vertex_def Let_def)
  have 3: "marked b2 u = (u \<in> marked_set ts)" if u: "0 \<le> u \<and> u < 2 ^ nat d" for u
  proof -
    from u have u0: "0 \<le> u" by simp
    have nb0: "\<not> marked b0 u" using b0(4) u bm_for_nv[OF f0] by simp
    note A = b2(3)[rule_format, OF u0, unfolded set_get_used_dimensions]
      b1(3)[rule_format, OF u0, unfolded set_get_used_dimensions] sb(3)[OF u0]
    show ?thesis unfolding marked_set_iff using A nb0 by blast
  qed
  from 1 b2(2) 3 show ?thesis by blast
qed

lemma range_check_ok:
  "in_range d ts \<Longrightarrow>
   for_each ts (\<lambda>trans u. if trans < 0 \<or> trans \<ge> d
                            then Inl (TransitionOutOfRange trans d) else Inr u) () = Inr ()"
  by (induction ts) (auto simp: in_range_def)

lemma range_check_fails:
  "\<not> in_range d ts \<Longrightarrow>
   \<exists>t\<in>set ts. (t < 0 \<or> d \<le> t) \<and>
   for_each ts (\<lambda>trans u. if trans < 0 \<or> trans \<ge> d
                            then Inl (TransitionOutOfRange trans d) else Inr u) ()
     = Inl (TransitionOutOfRange t d)"
  by (induction ts) (auto simp: in_range_def)

lemma SnakeNode_ok:
  assumes "1 \<le> d" "in_range d ts"
  shows "\<exists>b. SnakeNode ts d = Inr \<lparr>transition_sequence = ts, dimension = d, vertices_bitmap = b,
                  fitness = int (card (unmarked_vertices b))\<rparr>
           \<and> bm_for d b
           \<and> (\<forall>u. 0 \<le> u \<and> u < 2 ^ nat d \<longrightarrow> marked b u = (u \<in> marked_set ts))"
proof -
  from initialize_bitmap_ok[OF assms] obtain b where
    b: "initialize_bitmap ts d = Inr b" "bm_for d b"
      "\<forall>u. 0 \<le> u \<and> u < 2 ^ nat d \<longrightarrow> marked b u = (u \<in> marked_set ts)" by blast
  have "count_unmarked b = Inr (int (card (unmarked_vertices b)))"
    using count_unmarked_ok b(2) by (simp add: bm_for_def)
  then have "SnakeNode ts d = Inr \<lparr>transition_sequence = ts, dimension = d, vertices_bitmap = b,
                  fitness = int (card (unmarked_vertices b))\<rparr>"
    using assms(1) range_check_ok[OF assms(2)] b(1) by (simp add: SnakeNode_def)
  with b(2,3) show ?thesis by blast
qed

lemma SnakeNode_Inr_D:
  assumes "SnakeNode ts d = Inr p"
  shows "1 \<le> d" "in_range d ts"
proof -
  show d: "1 \<le> d" using assms by (auto simp: SnakeNode_def split: if_splits)
  show "in_range d ts"
  proof (rule ccontr)
    assume "\<not> in_range d ts"
    from range_check_fails[OF this] assms d show False by (auto simp: SnakeNode_def)
  qed
qed

text \<open>A node as the constructor builds it.\<close>

lemma SnakeNode_fields:
  assumes "SnakeNode ts d = Inr p"
  shows "transition_sequence p = ts" "dimension p = d" "bm_for d (vertices_bitmap p)"
    "fitness p = int (card (unmarked_vertices (vertices_bitmap p)))"
    "\<forall>u. 0 \<le> u \<and> u < 2 ^ nat d \<longrightarrow> marked (vertices_bitmap p) u = (u \<in> marked_set ts)"
proof -
  note D = SnakeNode_Inr_D[OF assms]
  from SnakeNode_ok[OF D] assms obtain b where
    p: "p = \<lparr>transition_sequence = ts, dimension = d, vertices_bitmap = b,
              fitness = int (card (unmarked_vertices b))\<rparr>" and b: "bm_for d b"
      "\<forall>u. 0 \<le> u \<and> u < 2 ^ nat d \<longrightarrow> marked b u = (u \<in> marked_set ts)" by auto
  show "transition_sequence p = ts" "dimension p = d" "bm_for d (vertices_bitmap p)"
    "fitness p = int (card (unmarked_vertices (vertices_bitmap p)))"
    "\<forall>u. 0 \<le> u \<and> u < 2 ^ nat d \<longrightarrow> marked (vertices_bitmap p) u = (u \<in> marked_set ts)"
    using p b by simp_all
qed

section \<open>Extending a node\<close>

lemma current_vertex_loop:
  "\<forall>t\<in>set ts. 0 \<le> t \<Longrightarrow>
   for_each ts compute_current_vertex_step c = Inr (last (c # walk c ts))"
  by (induction ts arbitrary: c) (simp_all add: compute_current_vertex_step_def)

lemma compute_current_vertex_ok:
  "in_range d ts \<Longrightarrow> compute_current_vertex ts = Inr (last (path ts))"
  using current_vertex_loop[of ts 0]
  by (simp add: compute_current_vertex_def path_def in_range_iff)

lemma bit_flip:
  "0 \<le> t \<Longrightarrow> 0 \<le> k \<Longrightarrow> bit (c XOR (2::int) ^ nat t) (nat k) = (bit c (nat k) \<noteq> (k = t))"
  by (auto simp: bit_simps nat_eq_iff)

lemma walk_bit_unused:
  "\<forall>t\<in>set ts. 0 \<le> t \<Longrightarrow> 0 \<le> k \<Longrightarrow> k \<notin> set ts \<Longrightarrow> w \<in> set (walk c ts) \<Longrightarrow>
   bit w (nat k) = bit c (nat k)"
proof (induction ts arbitrary: c)
  case Nil then show ?case by simp
next
  case (Cons t ts)
  have f: "bit (c XOR 2 ^ nat t) (nat k) = bit c (nat k)"
    using bit_flip[of t k c] Cons.prems by auto
  from Cons.prems(4) have "w = c XOR 2 ^ nat t \<or> w \<in> set (walk (c XOR 2 ^ nat t) ts)" by simp
  then show ?case
  proof
    assume "w = c XOR 2 ^ nat t" with f show ?thesis by simp
  next
    assume "w \<in> set (walk (c XOR 2 ^ nat t) ts)"
    from Cons.IH[OF _ Cons.prems(2) _ this] Cons.prems(1,3) f show ?thesis by simp
  qed
qed

lemma path_bit_unused:
  assumes "\<forall>t\<in>set ts. 0 \<le> t" "0 \<le> k" "k \<notin> set ts" "w \<in> set (path ts)"
  shows "\<not> bit w (nat k)"
proof -
  from assms(4) have "w = 0 \<or> w \<in> set (walk 0 ts)" by (simp add: path_def)
  then show ?thesis using walk_bit_unused[OF assms(1-3), of w 0] by auto
qed

lemma marked_set_bit_unused:
  assumes "\<forall>t\<in>set ts. 0 \<le> t" "0 \<le> k" "k \<notin> set ts" "u \<in> marked_set ts"
  shows "\<not> bit u (nat k)"
proof -
  from assms(4) consider "u \<in> set (path ts)"
    | w j where "w \<in> set (path ts)" "j \<in> set ts" "u = w XOR 2 ^ nat j"
    by (auto simp: marked_set_def)
  then show ?thesis
  proof cases
    case 1 then show ?thesis using path_bit_unused[OF assms(1-3)] by blast
  next
    case 2
    have "0 \<le> j" "k \<noteq> j" using 2(2) assms(1,3) by auto
    then have "bit u (nat k) = bit w (nat k)" using bit_flip[of j k w] assms(2) 2(3) by simp
    then show ?thesis using path_bit_unused[OF assms(1-3) 2(1)] by simp
  qed
qed

lemma last_path_in: "last (path ts) \<in> set (path ts)"
  unfolding path_def by (rule last_in_set) simp

lemma can_extend_iff:
  assumes "SnakeNode ts d = Inr p"
  shows "can_extend p nd = Inr (0 \<le> nd \<and> nd < d \<and> nd \<notin> set ts)"
proof (cases "0 \<le> nd \<and> nd < d")
  case False
  then show ?thesis using SnakeNode_fields(2)[OF assms] by (auto simp: can_extend_def)
next
  case True
  note D = SnakeNode_Inr_D[OF assms]
  note F = SnakeNode_fields[OF assms]
  have nonneg: "\<forall>t\<in>set ts. 0 \<le> t" using D(2) by (simp add: in_range_iff)
  let ?cur = "last (path ts)"
  let ?next = "?cur XOR 2 ^ nat nd"
  have cur: "0 \<le> ?cur" "?cur < 2 ^ nat d"
    using path_range[OF D] last_path_in[of ts] by blast+
  have nxt: "0 \<le> ?next" "?next < 2 ^ nat d"
    using xor_pow_range[OF cur, of "nat nd"] True by simp_all
  have ok: "bm_ok (vertices_bitmap p)" and nv: "num_vertices (vertices_bitmap p) = 2 ^ nat d"
    using F(3) bm_for_nv[OF F(3)] by (simp_all add: bm_for_def)
  have g: "get_bit (vertices_bitmap p) ?next = Inr (?next \<in> marked_set ts)"
    using get_bit_ok[OF ok nxt(1)] nxt F(5) nv by simp
  have m: "?next \<in> marked_set ts \<longleftrightarrow> nd \<in> set ts"
  proof
    assume "?next \<in> marked_set ts"
    show "nd \<in> set ts"
    proof (rule ccontr)
      assume n: "nd \<notin> set ts"
      from True have nd0: "0 \<le> nd" by simp
      have "\<not> bit ?next (nat nd)"
        using marked_set_bit_unused[OF nonneg nd0 n \<open>?next \<in> marked_set ts\<close>] .
      moreover have "\<not> bit ?cur (nat nd)"
        using path_bit_unused[OF nonneg nd0 n last_path_in] .
      ultimately show False using bit_flip[of nd nd ?cur] nd0 by simp
    qed
  next
    assume "nd \<in> set ts"
    then show "?next \<in> marked_set ts" using last_path_in[of ts] by (auto simp: marked_set_def)
  qed
  show ?thesis
    using True F(1,2) compute_current_vertex_ok[OF D(2)] g m
    by (simp add: can_extend_def get_current_vertex_def is_marked_def)
qed

lemma create_child_ok:
  assumes "SnakeNode ts d = Inr p" "0 \<le> nd" "nd < d" "nd \<notin> set ts"
  shows "\<exists>c. create_child p nd = Inr c \<and> SnakeNode (ts @ [nd]) d = Inr c"
proof -
  note D = SnakeNode_Inr_D[OF assms(1)]
  have "in_range d (ts @ [nd])" using D(2) assms(2,3) by (simp add: in_range_def)
  from SnakeNode_ok[OF D(1) this] obtain c where c: "SnakeNode (ts @ [nd]) d = Inr c" by blast
  have "create_child p nd = Inr c"
    using can_extend_iff[OF assms(1), of nd] assms(2-4) SnakeNode_fields(1,2)[OF assms(1)] c
    by (simp add: create_child_def)
  with c show ?thesis by blast
qed

lemma create_child_fails:
  assumes "SnakeNode ts d = Inr p" "\<not> (0 \<le> nd \<and> nd < d \<and> nd \<notin> set ts)"
  shows "create_child p nd = Inl (CannotExtend nd)"
  using can_extend_iff[OF assms(1), of nd] assms(2) by (simp add: create_child_def)

section \<open>Construction and extension of nodes\<close>

lemma is_SnakeNode_SnakeNode: "SnakeNode ts d = Inr p \<Longrightarrow> is_SnakeNode p"
  using SnakeNode_fields(1,2)[of ts d p] by (simp add: is_SnakeNode_def)

lemma walk_append:
  "walk c (ts @ us) = walk c ts @ walk (last (c # walk c ts)) us"
  by (induction ts arbitrary: c) simp_all

lemma marked_set_mono: "marked_set ts \<subseteq> marked_set (ts @ [nd])"
proof -
  have "set (path ts) \<subseteq> set (path (ts @ [nd]))"
    by (auto simp: path_def walk_append)
  then show ?thesis unfolding marked_set_def by auto
qed

text \<open>
  Claim C5. For every node \<open>p\<close> and every dimension \<open>nd\<close> with \<open>p.can_extend(nd)\<close>
  true, the child \<open>p.create_child(nd)\<close> exists, is one transition longer than \<open>p\<close>,
  and its fitness (its count of unmarked vertices) does not exceed the fitness of \<open>p\<close>.
\<close>

theorem create_child_monotone:
  assumes "is_SnakeNode p" "can_extend p nd = Inr True"
  shows "\<exists>c. create_child p nd = Inr c \<and> get_length c = get_length p + 1
            \<and> fitness c \<le> fitness p"
proof -
  let ?ts = "transition_sequence p" and ?d = "dimension p"
  have p: "SnakeNode ?ts ?d = Inr p" using assms(1) by (simp add: is_SnakeNode_def)
  from can_extend_iff[OF p, of nd] assms(2) have nd: "0 \<le> nd" "nd < ?d" "nd \<notin> set ?ts"
    by simp_all
  from create_child_ok[OF p nd] obtain c where
    c: "create_child p nd = Inr c" "SnakeNode (?ts @ [nd]) ?d = Inr c" by blast
  note P = SnakeNode_fields[OF p] and C = SnakeNode_fields[OF c(2)]
  have nvp: "num_vertices (vertices_bitmap p) = 2 ^ nat ?d" by (rule bm_for_nv[OF P(3)])
  have nvc: "num_vertices (vertices_bitmap c) = 2 ^ nat ?d" by (rule bm_for_nv[OF C(3)])
  have "unmarked_vertices (vertices_bitmap c) \<subseteq> unmarked_vertices (vertices_bitmap p)"
  proof
    fix u assume "u \<in> unmarked_vertices (vertices_bitmap c)"
    then have u: "0 \<le> u \<and> u < 2 ^ nat ?d" "\<not> marked (vertices_bitmap c) u"
      using nvc by (simp_all add: unmarked_vertices_def)
    then have "u \<notin> marked_set (?ts @ [nd])" using C(5) by blast
    then have "u \<notin> marked_set ?ts" using marked_set_mono[of ?ts nd] by blast
    then have "\<not> marked (vertices_bitmap p) u" using P(5) u(1) by blast
    then show "u \<in> unmarked_vertices (vertices_bitmap p)"
      using u(1) nvp by (simp add: unmarked_vertices_def)
  qed
  then have "card (unmarked_vertices (vertices_bitmap c)) \<le> card (unmarked_vertices (vertices_bitmap p))"
    by (rule card_mono[rotated]) simp
  then have "fitness c \<le> fitness p" using P(4) C(4) by simp
  moreover have "get_length c = get_length p + 1" using C(1) by (simp add: get_length_def)
  ultimately show ?thesis using c(1) by blast
qed

theorem create_child_monotone_witness:
  "is_SnakeNode \<lparr>transition_sequence = [0, 1], dimension = 3,
       vertices_bitmap = \<lparr>bm_dimension = 3, num_vertices = 8, num_words = 1, bitmap = [15]\<rparr>,
       fitness = 4\<rparr>
   \<and> (\<exists>c. create_child \<lparr>transition_sequence = [0, 1], dimension = 3,
       vertices_bitmap = \<lparr>bm_dimension = 3, num_vertices = 8, num_words = 1, bitmap = [15]\<rparr>,
       fitness = 4\<rparr> 2 = Inr c
          \<and> get_length c = 3 \<and> fitness c \<le> 4)"
proof -
  let ?p = "\<lparr>transition_sequence = [0, 1], dimension = 3,
       vertices_bitmap = \<lparr>bm_dimension = 3, num_vertices = 8, num_words = 1, bitmap = [15]\<rparr>,
       fitness = 4\<rparr>"
  have a: "is_SnakeNode ?p" by code_simp
  have b: "can_extend ?p 2 = Inr True" by code_simp
  from create_child_monotone[OF a b] a show ?thesis by (simp add: get_length_def)
qed

text \<open>
  Claim C8. The construction of a node fails if and only if the dimension is below 1 or
  some transition lies outside \<open>[0, dimension)\<close>; the failure is the error raised by the
  source (the dimension error first, else the error for the first transition out of
  range), and a node that is constructed has the sequence and the dimension it was given.
  In particular \<open>SnakeNode([0, 5], 3)\<close> fails with the transition-out-of-range error.
\<close>

theorem SnakeNode_fails_iff:
  "((\<exists>e. SnakeNode ts d = Inl e) \<longleftrightarrow> d < 1 \<or> (\<exists>t\<in>set ts. t < 0 \<or> d \<le> t))
   \<and> (d < 1 \<longrightarrow> SnakeNode ts d = Inl (DimensionTooSmall d))
   \<and> (1 \<le> d \<and> (\<exists>t\<in>set ts. t < 0 \<or> d \<le> t) \<longrightarrow>
        (\<exists>t\<in>set ts. (t < 0 \<or> d \<le> t) \<and> SnakeNode ts d = Inl (TransitionOutOfRange t d)))
   \<and> (\<forall>p. SnakeNode ts d = Inr p \<longrightarrow> transition_sequence p = ts \<and> dimension p = d)
   \<and> SnakeNode [0, 5] 3 = Inl (TransitionOutOfRange 5 3)"
proof -
  have small: "SnakeNode ts d = Inl (DimensionTooSmall d)" if "d < 1"
    using that by (simp add: SnakeNode_def)
  have bad: "\<exists>t\<in>set ts. (t < 0 \<or> d \<le> t) \<and> SnakeNode ts d = Inl (TransitionOutOfRange t d)"
    if "1 \<le> d" "\<exists>t\<in>set ts. t < 0 \<or> d \<le> t"
  proof -
    from that(2) have "\<not> in_range d ts" unfolding in_range_iff by force
    from range_check_fails[OF this] that(1) show ?thesis by (auto simp: SnakeNode_def)
  qed
  have good: "\<exists>p. SnakeNode ts d = Inr p" if "1 \<le> d" "\<not> (\<exists>t\<in>set ts. t < 0 \<or> d \<le> t)"
  proof -
    from that(2) have "in_range d ts" unfolding in_range_iff by force
    from SnakeNode_ok[OF that(1) this] show ?thesis by blast
  qed
  have iff: "(\<exists>e. SnakeNode ts d = Inl e) \<longleftrightarrow> d < 1 \<or> (\<exists>t\<in>set ts. t < 0 \<or> d \<le> t)"
  proof (cases "d < 1")
    case True with small show ?thesis by blast
  next
    case False
    then have d: "1 \<le> d" by simp
    show ?thesis
    proof (cases "\<exists>t\<in>set ts. t < 0 \<or> d \<le> t")
      case True with bad[OF d] show ?thesis by blast
    next
      case False with good[OF d] \<open>\<not> d < 1\<close> show ?thesis by auto
    qed
  qed
  have fields: "\<forall>p. SnakeNode ts d = Inr p \<longrightarrow> transition_sequence p = ts \<and> dimension p = d"
    using SnakeNode_fields(1,2) by blast
  have ex: "SnakeNode [0, 5] 3 = Inl (TransitionOutOfRange 5 3)"
    by (simp add: SnakeNode_def)
  from iff small bad fields ex show ?thesis by blast
qed

theorem SnakeNode_fails_iff_witness:
  "(\<exists>e. SnakeNode [0, 5] 3 = Inl e) \<and> SnakeNode [0, 1] 0 = Inl (DimensionTooSmall 0)
   \<and> (\<exists>p. SnakeNode [0, 1] 3 = Inr p \<and> transition_sequence p = [0, 1] \<and> dimension p = 3)"
proof -
  have a: "\<exists>t\<in>set [0, 5 :: int]. t < 0 \<or> 3 \<le> t" by simp
  have b: "\<not> (\<exists>e. SnakeNode [0, 1] 3 = Inl e)"
    using SnakeNode_fails_iff[of "[0, 1]" 3] by simp
  then obtain p where p: "SnakeNode [0, 1] 3 = Inr p" by (cases "SnakeNode [0, 1] 3") auto
  from SnakeNode_fails_iff[of "[0, 5]" 3] a have 1: "\<exists>e. SnakeNode [0, 5] 3 = Inl e" by blast
  from SnakeNode_fails_iff[of "[0, 1]" 0] have 2: "SnakeNode [0, 1] 0 = Inl (DimensionTooSmall 0)"
    by simp
  from SnakeNode_fails_iff[of "[0, 1]" 3] p
  have 3: "transition_sequence p = [0, 1] \<and> dimension p = 3" by blast
  from 1 2 3 p show ?thesis by blast
qed

section \<open>The two counts of free vertices\<close>

lemma for_each_invariant:
  "(\<And>x s s'. x \<in> set xs \<Longrightarrow> I s \<Longrightarrow> body x s = Inr s' \<Longrightarrow> I s') \<Longrightarrow>
   I s \<Longrightarrow> for_each xs body s = Inr s' \<Longrightarrow> I s'"
proof (induction xs arbitrary: s)
  case Nil then show ?case by simp
next
  case (Cons x xs)
  from Cons.prems(3) obtain s1 where s1: "body x s = Inr s1" "for_each xs body s1 = Inr s'"
    by (auto split: sum.splits)
  have "I s1" using Cons.prems(1)[of x s s1] Cons.prems(2) s1(1) by simp
  moreover have "\<And>y t t'. y \<in> set xs \<Longrightarrow> I t \<Longrightarrow> body y t = Inr t' \<Longrightarrow> I t'"
    using Cons.prems(1) by (meson list.set_intros(2))
  ultimately show ?case using Cons.IH[of s1] s1(2) by blast
qed

lemma bm_ok_update:
  assumes "bm_ok b" "length ws = length (bitmap b)"
    "\<And>i j. i < length ws \<Longrightarrow> j < 64 \<Longrightarrow> bit (ws ! i) j \<Longrightarrow> 64 * int i + int j < num_vertices b"
  shows "bm_ok (b\<lparr>bitmap := ws\<rparr>)"
  using assms unfolding bm_ok_def by simp

lemma bm_ok_pad:
  "bm_ok b \<Longrightarrow> i < length (bitmap b) \<Longrightarrow> j < 64 \<Longrightarrow> bit (bitmap b ! i) j
   \<Longrightarrow> 64 * int i + int j < num_vertices b"
  unfolding bm_ok_def by blast

lemma bm_ok_new: "HypercubeBitmap d = Inr b \<Longrightarrow> bm_ok b"
proof -
  assume a: "HypercubeBitmap d = Inr b"
  then have "1 \<le> d" by (auto simp: HypercubeBitmap_def split: if_splits)
  from HypercubeBitmap_ok[OF this] a show ?thesis by auto
qed

lemma bm_ok_set_bit: "bm_ok b \<Longrightarrow> set_bit_bm b v = Inr b' \<Longrightarrow> bm_ok b'"
proof -
  assume ok: "bm_ok b" and s: "set_bit_bm b v = Inr b'"
  from s have v: "0 \<le> v" "v < num_vertices b"
    by (auto simp: set_bit_bm_def split: if_splits)
  from set_bit_ok[OF ok v] s bm_ok_set_result[OF ok v] show ?thesis by simp
qed

lemma bm_ok_clear_bit: "bm_ok b \<Longrightarrow> clear_bit b v = Inr b' \<Longrightarrow> bm_ok b'"
proof -
  assume ok: "bm_ok b" and s: "clear_bit b v = Inr b'"
  let ?i = "nat (drop_bit 6 v)" and ?k = "nat (v AND 63)"
  let ?ws = "(bitmap b)[?i := (bitmap b ! ?i) AND NOT (push_bit ?k 1)]"
  from s have i: "?i < length (bitmap b)" and b': "b' = b\<lparr>bitmap := ?ws\<rparr>"
    by (auto simp: clear_bit_def Let_def split: if_splits)
  have "bm_ok (b\<lparr>bitmap := ?ws\<rparr>)"
  proof (rule bm_ok_update[OF ok])
    show "length ?ws = length (bitmap b)" by simp
  next
    fix i j assume a: "i < length ?ws" "j < 64" "bit (?ws ! i) j"
    then have "bit (bitmap b ! i) j"
      by (cases "i = ?i") (auto simp: bit_simps)
    with a ok show "64 * int i + int j < num_vertices b" by (auto intro: bm_ok_pad)
  qed
  with b' show ?thesis by simp
qed

lemma bm_ok_clear_all: "bm_ok b \<Longrightarrow> clear_all b = Inr b' \<Longrightarrow> bm_ok b'"
proof -
  assume ok: "bm_ok b" and s: "clear_all b = Inr b'"
  have step: "bm_ok s'" if "bm_ok s"
    "(if i \<ge> length (bitmap s) then Inl ArrayIndexError
      else Inr (s\<lparr>bitmap := (bitmap s)[i := 0]\<rparr>)) = Inr s'" for i s s'
  proof -
    from that(2) have i: "i < length (bitmap s)" and s': "s' = s\<lparr>bitmap := (bitmap s)[i := 0]\<rparr>"
      by (auto split: if_splits)
    have "bm_ok (s\<lparr>bitmap := (bitmap s)[i := 0]\<rparr>)"
    proof (rule bm_ok_update[OF that(1)])
      show "length ((bitmap s)[i := 0]) = length (bitmap s)" by simp
    next
      fix k j assume a: "k < length ((bitmap s)[i := 0])" "j < 64" "bit ((bitmap s)[i := 0] ! k) j"
      then have "bit (bitmap s ! k) j" by (cases "k = i") auto
      with a that(1) show "64 * int k + int j < num_vertices s" by (auto intro: bm_ok_pad)
    qed
    with s' show ?thesis by simp
  qed
  show ?thesis
    by (rule for_each_invariant[where I = bm_ok, OF _ ok s[unfolded clear_all_def]])
       (rule step)
qed

lemma bm_ok_copy: "bm_ok b \<Longrightarrow> copy_bitmap b = Inr b' \<Longrightarrow> bm_ok b'"
proof -
  assume ok: "bm_ok b" and s: "copy_bitmap b = Inr b'"
  from s obtain nb where nb: "HypercubeBitmap (bm_dimension b) = Inr nb" "b' = nb\<lparr>bitmap := bitmap b\<rparr>"
    by (cases "HypercubeBitmap (bm_dimension b)") (auto simp: copy_bitmap_def)
  from nb(1) have f: "num_vertices nb = num_vertices b" "length (bitmap nb) = length (bitmap b)"
    using ok by (auto simp: HypercubeBitmap_def Let_def bm_ok_def split: if_splits)
  have "bm_ok (nb\<lparr>bitmap := bitmap b\<rparr>)"
  proof (rule bm_ok_update[OF bm_ok_new[OF nb(1)]])
    show "length (bitmap b) = length (bitmap nb)" using f(2) by simp
  next
    fix i j assume "i < length (bitmap b)" "j < 64" "bit (bitmap b ! i) j"
    then show "64 * int i + int j < num_vertices nb" using bm_ok_pad[OF ok] f(1) by simp
  qed
  then show ?thesis using nb(2) by simp
qed

lemma is_HypercubeBitmap_ok: "is_HypercubeBitmap b \<Longrightarrow> bm_ok b"
  by (induction rule: is_HypercubeBitmap.induct)
     (auto intro: bm_ok_new bm_ok_set_bit bm_ok_clear_bit bm_ok_clear_all bm_ok_copy)

text \<open>
  Claim C9. For every bitmap that the constructor and the methods of \<open>HypercubeBitmap\<close>
  produce, the per-bit count \<open>count_unmarked\<close> and the popcount-based
  \<open>count_unmarked_fast\<close> return the same value: \<open>2 ^ n\<close> minus the number of set bits
  of the words, which is the number of zero bits among the \<open>2 ^ n\<close> vertex bits. This count
  is the fitness of a node.
\<close>

theorem count_unmarked_agree:
  "(is_HypercubeBitmap b \<longrightarrow>
      count_unmarked b = Inr (count_unmarked_fast b)
      \<and> count_unmarked_fast b
          = 2 ^ nat (bm_dimension b) - sum_list (map (\<lambda>word. int (count_ones (uint word))) (bitmap b))
      \<and> count_unmarked_fast b = int (card (unmarked_vertices b)))
   \<and> (SnakeNode ts d = Inr p \<longrightarrow>
      count_unmarked (vertices_bitmap p) = Inr (fitness p)
      \<and> count_unmarked_fast (vertices_bitmap p) = fitness p)"
proof (intro conjI impI)
  assume "is_HypercubeBitmap b"
  then have ok: "bm_ok b" by (rule is_HypercubeBitmap_ok)
  show "count_unmarked b = Inr (count_unmarked_fast b)"
    using count_unmarked_ok[OF ok] count_unmarked_fast_ok[OF ok] by simp
  show "count_unmarked_fast b
          = 2 ^ nat (bm_dimension b) - sum_list (map (\<lambda>word. int (count_ones (uint word))) (bitmap b))"
    using ok by (simp add: count_unmarked_fast_def bm_ok_def)
  show "count_unmarked_fast b = int (card (unmarked_vertices b))"
    by (rule count_unmarked_fast_ok[OF ok])
next
  assume p: "SnakeNode ts d = Inr p"
  note F = SnakeNode_fields[OF p]
  have ok: "bm_ok (vertices_bitmap p)" using F(3) by (simp add: bm_for_def)
  show "count_unmarked (vertices_bitmap p) = Inr (fitness p)"
    using count_unmarked_ok[OF ok] F(4) by simp
  show "count_unmarked_fast (vertices_bitmap p) = fitness p"
    using count_unmarked_fast_ok[OF ok] F(4) by simp
qed

theorem count_unmarked_agree_witness:
  "is_HypercubeBitmap \<lparr>bm_dimension = 3, num_vertices = 8, num_words = 1, bitmap = [5]\<rparr>
   \<and> count_unmarked \<lparr>bm_dimension = 3, num_vertices = 8, num_words = 1, bitmap = [5]\<rparr> = Inr 6
   \<and> count_unmarked_fast \<lparr>bm_dimension = 3, num_vertices = 8, num_words = 1, bitmap = [5]\<rparr> = 6
   \<and> (\<exists>p. SnakeNode [0, 1] 3 = Inr p \<and> count_unmarked (vertices_bitmap p) = Inr (fitness p))"
proof -
  let ?zero = "\<lparr>bm_dimension = 3, num_vertices = 8, num_words = 1, bitmap = [0]\<rparr>"
  let ?one = "\<lparr>bm_dimension = 3, num_vertices = 8, num_words = 1, bitmap = [1]\<rparr>"
  let ?b = "\<lparr>bm_dimension = 3, num_vertices = 8, num_words = 1, bitmap = [5]\<rparr>"
  have "HypercubeBitmap 3 = Inr ?zero" by (simp add: HypercubeBitmap_def)
  then have 0: "is_HypercubeBitmap ?zero" by (rule is_HypercubeBitmap.new)
  have "set_bit_bm ?zero 0 = Inr ?one" by (simp add: set_bit_bm_def)
  with 0 have 1: "is_HypercubeBitmap ?one" by (rule is_HypercubeBitmap.set_bit)
  have "set_bit_bm ?one 2 = Inr ?b" by (simp add: set_bit_bm_def)
  with 1 have b: "is_HypercubeBitmap ?b" by (rule is_HypercubeBitmap.set_bit)
  have "count_ones 5 = 2" by code_simp
  then have f: "count_unmarked_fast ?b = 6" by (simp add: count_unmarked_fast_def)
  obtain p where p: "SnakeNode [0, 1] 3 = Inr p"
    using SnakeNode_ok[of 3 "[0, 1]"] by (auto simp: in_range_def)
  note T = count_unmarked_agree[of ?b "[0, 1]" 3 p]
  from T b have "count_unmarked ?b = Inr (count_unmarked_fast ?b)" by blast
  then have c: "count_unmarked ?b = Inr 6" by (simp only: f)
  from T p have "count_unmarked (vertices_bitmap p) = Inr (fitness p)" by blast
  with b c f p show ?thesis by blast
qed

section \<open>Canonical form and the steps of the search\<close>

lemma is_canonical_loop_append:
  "is_canonical_loop m (xs @ [x]) \<longleftrightarrow> is_canonical_loop m xs \<and> x \<le> canonical_max m xs + 1"
  by (induction xs arbitrary: m) auto

lemma canonical_max_Max:
  "is_canonical_loop m xs \<Longrightarrow> canonical_max m xs = Max (insert m (set xs))"
proof (induction xs arbitrary: m)
  case Nil then show ?case by simp
next
  case (Cons x xs)
  from Cons.prems have x: "x \<le> m + 1"
    and r: "is_canonical_loop (if x = m + 1 then x else m) xs" by (auto split: if_splits)
  have "canonical_max m (x # xs) = Max (insert (if x = m + 1 then x else m) (set xs))"
    using Cons.IH[OF r] by simp
  also have "\<dots> = Max (insert m (insert x (set xs)))"
  proof (cases "x = m + 1")
    case True
    have "Max (insert m (insert x (set xs))) = max m (Max (insert x (set xs)))"
      by (rule Max_insert) simp_all
    moreover have "x \<le> Max (insert x (set xs))" by simp
    then have "max m (Max (insert x (set xs))) = Max (insert x (set xs))" using True by linarith
    ultimately show ?thesis using True by simp
  next
    case False
    with x have xm: "x \<le> m" by simp
    have "Max (insert m (insert x (set xs))) = Max (insert x (insert m (set xs)))"
      by (simp only: insert_commute)
    also have "\<dots> = max x (Max (insert m (set xs)))"
      by (rule Max_insert) simp_all
    finally have "Max (insert m (insert x (set xs))) = max x (Max (insert m (set xs)))" .
    moreover have "m \<le> Max (insert m (set xs))" by simp
    ultimately show ?thesis using False xm by simp
  qed
  finally show ?case by simp
qed

lemma set_legal_next:
  "s \<noteq> [] \<Longrightarrow> set (get_legal_next_dimensions s) = set s \<union> {Max (set s) + 1}"
  by (simp add: get_legal_next_dimensions_def Let_def)

lemma canonical_extend:
  assumes "is_canonical s" "x \<in> set (get_legal_next_dimensions s)"
  shows "is_canonical (s @ [x])"
proof (cases s)
  case Nil
  with assms(2) show ?thesis by (simp add: get_legal_next_dimensions_def is_canonical_def)
next
  case (Cons a rest)
  with assms(1) have a: "a = 0" and l: "is_canonical_loop 0 s"
    by (auto simp: is_canonical_def split: if_splits)
  have "0 \<in> set s" using Cons a by simp
  then have "Max (insert 0 (set s)) = Max (set s)" by (simp add: insert_absorb)
  then have m: "canonical_max 0 s = Max (set s)" using canonical_max_Max[OF l] by simp
  from assms(2) Cons have "x \<in> set s \<or> x = Max (set s) + 1"
    using set_legal_next[of s] by auto
  then have "x \<le> Max (set s) + 1"
  proof
    assume "x \<in> set s"
    then have "x \<le> Max (set s)" by simp
    then show ?thesis by simp
  qed simp
  then have "is_canonical_loop 0 (s @ [x])" using l m by (simp add: is_canonical_loop_append)
  then show ?thesis using Cons a by (simp add: is_canonical_def)
qed

lemma is_SnakeNode_D: "is_SnakeNode p \<Longrightarrow> SnakeNode (transition_sequence p) (dimension p) = Inr p"
  by (simp add: is_SnakeNode_def)

lemma bfs_try_dim_extend:
  assumes "is_SnakeNode node" "0 \<le> dim" "dim < dimension node" "dim \<notin> set (transition_sequence node)"
  shows "\<exists>c. SnakeNode (transition_sequence node @ [dim]) (dimension node) = Inr c
     \<and> bfs_try_dim node dim s =
         Inr (if get_length c > max_length s
              then s\<lparr>next_level := next_level s @ [c],
                     total_nodes_explored := total_nodes_explored s + 1,
                     max_length := get_length c, best_snake := Some c\<rparr>
              else s\<lparr>next_level := next_level s @ [c],
                     total_nodes_explored := total_nodes_explored s + 1\<rparr>)"
proof -
  note p = is_SnakeNode_D[OF assms(1)]
  from create_child_ok[OF p assms(2-4)] obtain c where
    c: "create_child node dim = Inr c" "SnakeNode (transition_sequence node @ [dim]) (dimension node) = Inr c"
    by blast
  have "can_extend node dim = Inr True" using can_extend_iff[OF p, of dim] assms(2-4) by simp
  then have "bfs_try_dim node dim s =
         Inr (if get_length c > max_length s
              then s\<lparr>next_level := next_level s @ [c],
                     total_nodes_explored := total_nodes_explored s + 1,
                     max_length := get_length c, best_snake := Some c\<rparr>
              else s\<lparr>next_level := next_level s @ [c],
                     total_nodes_explored := total_nodes_explored s + 1\<rparr>)"
    using c(1) by (simp add: bfs_try_dim_def is_valid_extension_def Let_def)
  with c(2) show ?thesis by blast
qed

lemma bfs_try_dim_skip:
  assumes "is_SnakeNode node"
    "\<not> (0 \<le> dim \<and> dim < dimension node \<and> dim \<notin> set (transition_sequence node))"
  shows "bfs_try_dim node dim s = Inr s"
proof -
  have "can_extend node dim = Inr False"
    using can_extend_iff[OF is_SnakeNode_D[OF assms(1)], of dim] assms(2) by simp
  then show ?thesis by (simp add: bfs_try_dim_def is_valid_extension_def)
qed

lemma for_each_total:
  "(\<And>x s. x \<in> set xs \<Longrightarrow> I s \<Longrightarrow> \<exists>s'. body x s = Inr s' \<and> I s') \<Longrightarrow>
   I s \<Longrightarrow> \<exists>s'. for_each xs body s = Inr s' \<and> I s'"
proof (induction xs arbitrary: s)
  case Nil then show ?case by simp
next
  case (Cons x xs)
  from Cons.prems(1)[of x s] Cons.prems(2) obtain s1 where s1: "body x s = Inr s1" "I s1" by auto
  have "\<And>y t. y \<in> set xs \<Longrightarrow> I t \<Longrightarrow> \<exists>t'. body y t = Inr t' \<and> I t'"
    using Cons.prems(1) by (meson list.set_intros(2))
  from Cons.IH[OF this s1(2)] s1(1) show ?case by simp
qed

lemma set_slice_to: "set (slice_to xs k) \<subseteq> set xs"
  by (auto simp: slice_to_def dest: in_set_takeD)

lemma set_prune_by_fitness:
  assumes "prune_by_fitness mm nodes = Inr pruned"
  shows "set pruned \<subseteq> set nodes"
proof -
  have "set (slice_to (sort_key (\<lambda>n. - fitness n) nodes) k) \<subseteq> set nodes" for k
    using set_slice_to[of "sort_key (\<lambda>n. - fitness n) nodes" k] by simp
  then show ?thesis
    using assms by (auto simp: prune_by_fitness_def Let_def and_then_def split: if_splits sum.splits)
qed

lemma prune_by_fitness_cases:
  "(\<exists>pruned. prune_by_fitness mm nodes = Inr pruned)
   \<or> (\<exists>e. prune_by_fitness mm nodes = Inl e \<and> quota_error mm e)"
proof (cases "nodes = []")
  case True then show ?thesis by (simp add: prune_by_fitness_def)
next
  case False
  show ?thesis
  proof (cases "max_nodes_for mm (estimate_node_size mm (nodes ! 0))")
    case (Inl e)
    then have "quota_error mm e" unfolding quota_error_def by blast
    with Inl False show ?thesis by (simp add: prune_by_fitness_def Let_def)
  next
    case (Inr q)
    with False show ?thesis by (simp add: prune_by_fitness_def Let_def)
  qed
qed

lemma prune_by_fitness_total:
  assumes "\<And>e. \<not> quota_error mm e"
  shows "\<exists>pruned. prune_by_fitness mm nodes = Inr pruned"
  using prune_by_fitness_cases[of mm nodes] assms by blast

lemma frontier_node_child:
  assumes "frontier_node d k node" "dim \<notin> set (transition_sequence node)"
    "dim \<in> set (get_legal_next_dimensions (transition_sequence node))"
    "SnakeNode (transition_sequence node @ [dim]) (dimension node) = Inr c"
  shows "frontier_node d (Suc k) c"
proof -
  note F = SnakeNode_fields(1,2)[OF assms(4)]
  have "is_SnakeNode c" by (rule is_SnakeNode_SnakeNode[OF assms(4)])
  moreover have "is_canonical (transition_sequence node @ [dim])"
    using canonical_extend[OF _ assms(3)] assms(1) by (simp add: frontier_node_def)
  ultimately show ?thesis using assms(1,2) F by (simp add: frontier_node_def)
qed

lemma best_recorded_cong:
  "best_snake s' = best_snake s \<Longrightarrow> max_length s' = max_length s \<Longrightarrow>
   best_recorded s' = best_recorded s"
  by (simp add: best_recorded_def)

lemma bfs_try_dim_building:
  assumes node: "frontier_node d k node"
    and dim: "dim \<in> set (get_legal_next_dimensions (transition_sequence node))"
    and b: "building d k s"
  shows "\<exists>s'. bfs_try_dim node dim s = Inr s' \<and> building d k s'
     \<and> (best_recorded s \<longrightarrow> best_recorded s')
     \<and> current_level s' = current_level s \<and> level_count s' = level_count s"
proof (cases "0 \<le> dim \<and> dim < dimension node \<and> dim \<notin> set (transition_sequence node)")
  case False
  have "bfs_try_dim node dim s = Inr s"
    using bfs_try_dim_skip[OF _ False] node by (simp add: frontier_node_def)
  with b show ?thesis by simp
next
  case True
  have sn: "is_SnakeNode node" using node by (simp add: frontier_node_def)
  from bfs_try_dim_extend[OF sn, of dim s] True obtain c where
    c: "SnakeNode (transition_sequence node @ [dim]) (dimension node) = Inr c"
    and r: "bfs_try_dim node dim s =
         Inr (if get_length c > max_length s
              then s\<lparr>next_level := next_level s @ [c],
                     total_nodes_explored := total_nodes_explored s + 1,
                     max_length := get_length c, best_snake := Some c\<rparr>
              else s\<lparr>next_level := next_level s @ [c],
                     total_nodes_explored := total_nodes_explored s + 1\<rparr>)"
    by blast
  have fc: "frontier_node d (Suc k) c" using frontier_node_child[OF node _ dim c] True by simp
  have sc: "is_SnakeNode c" and lc: "1 \<le> get_length c"
    using fc by (simp_all add: frontier_node_def get_length_def)
  from b have nl: "list_all (frontier_node d (Suc k)) (next_level s)"
    and bs: "if best_snake s = None then max_length s = 0 \<and> next_level s = [] else best_recorded s"
    by (simp_all add: building_def)
  show ?thesis
  proof (cases "get_length c > max_length s")
    case True
    let ?s = "s\<lparr>next_level := next_level s @ [c],
                total_nodes_explored := total_nodes_explored s + 1,
                max_length := get_length c, best_snake := Some c\<rparr>"
    have "best_recorded ?s" using sc lc by (simp add: best_recorded_def)
    then have "building d k ?s" using nl fc by (simp add: building_def)
    with r True \<open>best_recorded ?s\<close> show ?thesis by simp
  next
    case False
    let ?s = "s\<lparr>next_level := next_level s @ [c],
                total_nodes_explored := total_nodes_explored s + 1\<rparr>"
    from False lc have "max_length s \<noteq> 0" by simp
    with bs have br: "best_snake s \<noteq> None" "best_recorded s" by (auto split: if_splits)
    have br': "best_recorded ?s" using br(2) by (simp add: best_recorded_def)
    have "building d k ?s" using nl fc br(1) br' by (simp add: building_def)
    with r False br' show ?thesis by simp
  qed
qed

lemma bfs_expand_node_building:
  assumes node: "frontier_node d k node" and b: "building d k s"
  shows "\<exists>s'. bfs_expand_node node s = Inr s' \<and> building d k s'
     \<and> (best_recorded s \<longrightarrow> best_recorded s')
     \<and> current_level s' = current_level s \<and> level_count s' = level_count s"
proof -
  let ?I = "\<lambda>t. building d k t \<and> (best_recorded s \<longrightarrow> best_recorded t)
     \<and> current_level t = current_level s \<and> level_count t = level_count s"
  have "\<exists>s'. for_each (get_legal_next_dimensions (transition_sequence node)) (bfs_try_dim node) s = Inr s'
          \<and> ?I s'"
  proof (rule for_each_total[where I = ?I])
    fix x t assume x: "x \<in> set (get_legal_next_dimensions (transition_sequence node))" and t: "?I t"
    from bfs_try_dim_building[OF node x, of t] t
    show "\<exists>s'. bfs_try_dim node x t = Inr s' \<and> ?I s'" by auto
  next
    show "?I s" using b by simp
  qed
  then show ?thesis by (simp add: bfs_expand_node_def)
qed

section \<open>The loop of the search\<close>

lemma frontier_node_root:
  assumes "SnakeNode [] d = Inr root"
  shows "frontier_node d 0 root"
  using SnakeNode_fields(1,2)[OF assms] is_SnakeNode_SnakeNode[OF assms]
  by (simp add: frontier_node_def is_canonical_def)


lemma bfs_level_cases:
  assumes "for_each (current_level s) bfs_expand_node (s\<lparr>next_level := []\<rparr>) = Inr s1"
  shows "(\<exists>s'. bfs_level mm s = Inr s' \<and> set (current_level s') \<subseteq> set (next_level s1)
            \<and> best_snake s' = best_snake s1 \<and> max_length s' = max_length s1)
         \<or> (\<exists>e. bfs_level mm s = Inl e \<and> quota_error mm e)"
proof (cases "memory_usage_exceeds mm (next_level s1)")
  case False
  with assms show ?thesis by (simp add: bfs_level_def)
next
  case True
  from prune_by_fitness_cases[of mm "next_level s1"] show ?thesis
  proof
    assume "\<exists>pruned. prune_by_fitness mm (next_level s1) = Inr pruned"
    then obtain pruned where p: "prune_by_fitness mm (next_level s1) = Inr pruned" by blast
    from set_prune_by_fitness[OF p] p assms True show ?thesis by (simp add: bfs_level_def)
  next
    assume "\<exists>e. prune_by_fitness mm (next_level s1) = Inl e \<and> quota_error mm e"
    with assms True show ?thesis by (auto simp: bfs_level_def)
  qed
qed

lemma bfs_level_ok:
  assumes fr: "list_all (frontier_node d k) (current_level s)"
    and st: "if best_snake s = None then max_length s = 0 else best_recorded s"
  shows "(\<exists>s'. bfs_level mm s = Inr s' \<and> list_all (frontier_node d (Suc k)) (current_level s')
            \<and> (best_recorded s \<longrightarrow> best_recorded s'))
         \<or> (\<exists>e. bfs_level mm s = Inl e \<and> quota_error mm e)"
proof -
  let ?s0 = "s\<lparr>next_level := []\<rparr>"
  let ?I = "\<lambda>t. building d k t \<and> (best_recorded ?s0 \<longrightarrow> best_recorded t)"
  have br0: "best_recorded ?s0 = best_recorded s" by (simp add: best_recorded_def)
  have b0: "building d k ?s0" using st br0 by (simp add: building_def)
  have "\<exists>s1. for_each (current_level s) bfs_expand_node ?s0 = Inr s1 \<and> ?I s1"
  proof (rule for_each_total[where I = ?I])
    fix x t assume x: "x \<in> set (current_level s)" and t: "?I t"
    from x fr have fx: "frontier_node d k x" by (simp add: list_all_iff)
    from bfs_expand_node_building[OF fx, of t] t
    show "\<exists>s'. bfs_expand_node x t = Inr s' \<and> ?I s'" by auto
  next
    show "?I ?s0" using b0 by simp
  qed
  then obtain s1 where s1: "for_each (current_level s) bfs_expand_node ?s0 = Inr s1"
    "building d k s1" "best_recorded s \<longrightarrow> best_recorded s1" using br0 by auto
  have nl: "list_all (frontier_node d (Suc k)) (next_level s1)"
    using s1(2) by (simp add: building_def)
  from bfs_level_cases[OF s1(1), of mm] show ?thesis
  proof
    assume "\<exists>s'. bfs_level mm s = Inr s' \<and> set (current_level s') \<subseteq> set (next_level s1)
            \<and> best_snake s' = best_snake s1 \<and> max_length s' = max_length s1"
    then obtain s' where s': "bfs_level mm s = Inr s'"
      "set (current_level s') \<subseteq> set (next_level s1)"
      "best_snake s' = best_snake s1" "max_length s' = max_length s1" by blast
    from nl s'(2) have fr': "list_all (frontier_node d (Suc k)) (current_level s')"
      unfolding list_all_iff by blast
    have "best_recorded s' = best_recorded s1" by (rule best_recorded_cong[OF s'(3,4)])
    with s1(3) have "best_recorded s \<longrightarrow> best_recorded s'" by simp
    with s'(1) fr' show ?thesis by blast
  next
    assume "\<exists>e. bfs_level mm s = Inl e \<and> quota_error mm e"
    then show ?thesis by blast
  qed
qed

lemma first_level:
  assumes root: "SnakeNode [] d = Inr root" and lv: "bfs_level mm (bfs_initial_state root) = Inr s'"
  shows "best_recorded s'"
proof -
  let ?s0 = "bfs_initial_state root\<lparr>next_level := []\<rparr>"
  note F = SnakeNode_fields(1,2)[OF root]
  have sn: "is_SnakeNode root" by (rule is_SnakeNode_SnakeNode[OF root])
  have d: "1 \<le> d" by (rule SnakeNode_Inr_D(1)[OF root])
  from bfs_try_dim_extend[OF sn, of 0 ?s0] F d obtain c where
    c: "SnakeNode [0] d = Inr c"
    and r: "bfs_try_dim root 0 ?s0 =
         Inr (if get_length c > max_length ?s0
              then ?s0\<lparr>next_level := next_level ?s0 @ [c],
                     total_nodes_explored := total_nodes_explored ?s0 + 1,
                     max_length := get_length c, best_snake := Some c\<rparr>
              else ?s0\<lparr>next_level := next_level ?s0 @ [c],
                     total_nodes_explored := total_nodes_explored ?s0 + 1\<rparr>)"
    by auto
  have lc: "get_length c = 1" using SnakeNode_fields(1)[OF c] by (simp add: get_length_def)
  let ?s1 = "?s0\<lparr>next_level := next_level ?s0 @ [c],
                     total_nodes_explored := total_nodes_explored ?s0 + 1,
                     max_length := get_length c, best_snake := Some c\<rparr>"
  have r1: "bfs_try_dim root 0 ?s0 = Inr ?s1" using r lc by (simp add: bfs_initial_state_def)
  have fe: "for_each (current_level (bfs_initial_state root)) bfs_expand_node ?s0 = Inr ?s1"
    using r1 F by (simp add: bfs_initial_state_def bfs_expand_node_def get_legal_next_dimensions_def)
  from bfs_level_cases[OF fe, of mm] lv
  have s': "best_snake s' = best_snake ?s1" "max_length s' = max_length ?s1" by auto
  have "best_recorded ?s1" using lc is_SnakeNode_SnakeNode[OF c] by (simp add: best_recorded_def)
  then show "best_recorded s'" using s' by (simp add: best_recorded_def)
qed

lemma level_state_frontier:
  "level_state d k s \<Longrightarrow> list_all (frontier_node d k) (current_level s)"
  by (cases "k = 0")
     (auto simp: level_state_def bfs_initial_state_def frontier_node_root split: sum.splits)

lemma level_step:
  assumes "level_state d k s"
  shows "(\<exists>s'. bfs_level mm s = Inr s' \<and> level_state d (Suc k) s')
         \<or> (\<exists>e. bfs_level mm s = Inl e \<and> quota_error mm e)"
proof (cases "k = 0")
  case True
  with assms obtain root where root: "SnakeNode [] d = Inr root" "s = bfs_initial_state root"
    by (auto simp: level_state_def split: sum.splits)
  have st: "if best_snake s = None then max_length s = 0 else best_recorded s"
    using root(2) by (simp add: bfs_initial_state_def)
  from bfs_level_ok[OF level_state_frontier[OF assms] st, of mm] show ?thesis
  proof
    assume "\<exists>s'. bfs_level mm s = Inr s' \<and> list_all (frontier_node d (Suc k)) (current_level s')
            \<and> (best_recorded s \<longrightarrow> best_recorded s')"
    then obtain s' where s': "bfs_level mm s = Inr s'"
      "list_all (frontier_node d (Suc k)) (current_level s')" by blast
    have "best_recorded s'" using first_level[OF root(1), of mm s'] s'(1) root(2) by simp
    with s' show ?thesis by (auto simp: level_state_def)
  next
    assume "\<exists>e. bfs_level mm s = Inl e \<and> quota_error mm e"
    then show ?thesis by blast
  qed
next
  case False
  with assms have br: "best_recorded s" by (simp add: level_state_def)
  then have st: "if best_snake s = None then max_length s = 0 else best_recorded s"
    by (auto simp: best_recorded_def)
  from bfs_level_ok[OF level_state_frontier[OF assms] st, of mm] br
  show ?thesis by (auto simp: level_state_def)
qed



lemma bfs_after_ok:
  assumes "1 \<le> d"
  shows "(\<exists>s. bfs_after mm d k = Inr s \<and> (level_state d k s \<or> current_level s = []))
         \<or> (\<exists>e. bfs_after mm d k = Inl e \<and> quota_error mm e)"
proof (induction k)
  case 0
  from SnakeNode_ok[OF assms, of "[]"] obtain root where root: "SnakeNode [] d = Inr root"
    by (auto simp: in_range_def)
  then show ?case by (simp add: level_state_def)
next
  case (Suc k)
  from Suc show ?case
  proof
    assume "\<exists>e. bfs_after mm d k = Inl e \<and> quota_error mm e"
    then show ?thesis by auto
  next
    assume "\<exists>s. bfs_after mm d k = Inr s \<and> (level_state d k s \<or> current_level s = [])"
    then obtain s where s: "bfs_after mm d k = Inr s" "level_state d k s \<or> current_level s = []"
      by blast
    show ?thesis
    proof (cases "current_level s = []")
      case True with s(1) show ?thesis by simp
    next
      case False
      with s(2) have "level_state d k s" by simp
      from level_step[OF this, of mm] s(1) False show ?thesis by auto
    qed
  qed
qed

lemma bfs_after_frontier:
  assumes "1 \<le> d" "bfs_after mm d k = Inr s" "p \<in> set (current_level s)"
  shows "frontier_node d k p"
proof -
  from bfs_after_ok[OF assms(1), of mm k] assms(2,3) have "level_state d k s" by auto
  from level_state_frontier[OF this] assms(3) show ?thesis by (simp add: list_all_iff)
qed
section \<open>Properties of the search\<close>

text \<open>
  Claim C4. The empty sequence is canonical; appending a dimension proposed by
  \<open>get_legal_next_dimensions\<close> to a canonical sequence gives a canonical sequence; and for
  every dimension \<open>d \<ge> 1\<close> and every memory limit, every node of every frontier of
  \<open>pruned_bfs_search\<close> has a canonical transition sequence.
\<close>

theorem canonical_frontiers:
  "is_canonical []
   \<and> (is_canonical s \<and> x \<in> set (get_legal_next_dimensions s) \<longrightarrow> is_canonical (s @ [x]))
   \<and> (1 \<le> d \<and> bfs_after mm d k = Inr st \<longrightarrow>
        list_all (\<lambda>p. is_canonical (transition_sequence p)) (current_level st))"
proof (intro conjI impI)
  show "is_canonical []" by (simp add: is_canonical_def)
next
  assume "is_canonical s \<and> x \<in> set (get_legal_next_dimensions s)"
  then show "is_canonical (s @ [x])" using canonical_extend by blast
next
  assume a: "1 \<le> d \<and> bfs_after mm d k = Inr st"
  show "list_all (\<lambda>p. is_canonical (transition_sequence p)) (current_level st)"
    unfolding list_all_iff
  proof
    fix p assume "p \<in> set (current_level st)"
    with a have "frontier_node d k p" using bfs_after_frontier by blast
    then show "is_canonical (transition_sequence p)" by (simp add: frontier_node_def)
  qed
qed

theorem canonical_frontiers_witness:
  "is_canonical [0, 1] \<and> 2 \<in> set (get_legal_next_dimensions [0, 1]) \<and> is_canonical ([0, 1] @ [2])
   \<and> (\<exists>st. bfs_after memory_18gb 3 2 = Inr st
          \<and> map transition_sequence (current_level st) = [[0, 1]]
          \<and> list_all (\<lambda>p. is_canonical (transition_sequence p)) (current_level st))"
proof -
  have a: "is_canonical [0, 1]" by code_simp
  have b: "2 \<in> set (get_legal_next_dimensions [0, 1])" by code_simp
  have c: "map_sum id (\<lambda>st. map transition_sequence (current_level st)) (bfs_after memory_18gb 3 2)
             = Inr [[0, 1]]" by code_simp
  then obtain st where st: "bfs_after memory_18gb 3 2 = Inr st"
    "map transition_sequence (current_level st) = [[0, 1]]"
    by (cases "bfs_after memory_18gb 3 2") auto
  note T = canonical_frontiers[of "[0, 1]" 2 3 memory_18gb 2 st]
  from T a b have 1: "is_canonical ([0, 1] @ [2])" by blast
  from T st(1) have 2: "list_all (\<lambda>p. is_canonical (transition_sequence p)) (current_level st)"
    by simp
  from a b 1 2 st show ?thesis by (auto intro!: exI[of _ st])
qed




text \<open>
  Claim C10. For every dimension \<open>d \<ge> 1\<close> and every memory limit, no iteration of the
  loop of \<open>pruned_bfs_search\<close> fails on a range error: the only exception that can end a
  run is the one of the conversion in \<open>prune_by_fitness\<close>, and where that conversion does
  not raise, every iteration succeeds. Every node of every frontier has all its
  transitions in \<open>[0, d)\<close>. For such a node, \<open>can_extend\<close> is false for every proposed
  dimension outside \<open>[0, d)\<close> (such as \<open>max_used + 1 = d\<close>), and where \<open>can_extend\<close> is
  true, \<open>create_child\<close> succeeds and the child's transitions are in range again.
\<close>

theorem frontier_in_range:
  "1 \<le> d \<longrightarrow>
     (\<forall>e. bfs_after mm d k = Inl e \<longrightarrow> quota_error mm e)
     \<and> ((\<forall>e. \<not> quota_error mm e) \<longrightarrow> (\<exists>st. bfs_after mm d k = Inr st))
     \<and> (\<forall>st. bfs_after mm d k = Inr st \<longrightarrow>
          list_all (\<lambda>p. in_range d (transition_sequence p)
             \<and> list_all (\<lambda>dim.
                  (if dim < 0 \<or> d \<le> dim then can_extend p dim = Inr False
                   else can_extend p dim = Inr False
                        \<or> (\<exists>c. create_child p dim = Inr c \<and> in_range d (transition_sequence c))))
                 (get_legal_next_dimensions (transition_sequence p)))
            (current_level st))"
proof (intro impI conjI allI)
  assume d: "1 \<le> d"
  note ok = bfs_after_ok[OF d, of mm k]
  {
    fix e assume "bfs_after mm d k = Inl e"
    with ok show "quota_error mm e" by auto
  }
  {
    assume "\<forall>e. \<not> quota_error mm e"
    with ok show "\<exists>st. bfs_after mm d k = Inr st" by blast
  }
  fix st assume st: "bfs_after mm d k = Inr st"
  have "in_range d (transition_sequence p)
             \<and> list_all (\<lambda>dim.
                  (if dim < 0 \<or> d \<le> dim then can_extend p dim = Inr False
                   else can_extend p dim = Inr False
                        \<or> (\<exists>c. create_child p dim = Inr c \<and> in_range d (transition_sequence c))))
                 (get_legal_next_dimensions (transition_sequence p))"
    if "p \<in> set (current_level st)" for p
  proof -
    from bfs_after_frontier[OF d st that] have f: "frontier_node d k p" .
    then have p: "SnakeNode (transition_sequence p) d = Inr p"
      by (auto simp: frontier_node_def is_SnakeNode_def)
    have r: "in_range d (transition_sequence p)" by (rule SnakeNode_Inr_D(2)[OF p])
    have "if dim < 0 \<or> d \<le> dim then can_extend p dim = Inr False
          else can_extend p dim = Inr False
               \<or> (\<exists>c. create_child p dim = Inr c \<and> in_range d (transition_sequence c))" for dim
    proof (cases "0 \<le> dim \<and> dim < d \<and> dim \<notin> set (transition_sequence p)")
      case True
      from create_child_ok[OF p] True obtain c where
        c: "create_child p dim = Inr c" "SnakeNode (transition_sequence p @ [dim]) d = Inr c"
        by blast
      have "in_range d (transition_sequence c)"
        using SnakeNode_Inr_D(2)[OF c(2)] SnakeNode_fields(1)[OF c(2)] by simp
      with c(1) True show ?thesis by auto
    next
      case False
      then have "can_extend p dim = Inr False" using can_extend_iff[OF p, of dim] by simp
      then show ?thesis by simp
    qed
    then show ?thesis using r by (simp add: list_all_iff)
  qed
  then show "list_all (\<lambda>p. in_range d (transition_sequence p)
             \<and> list_all (\<lambda>dim.
                  (if dim < 0 \<or> d \<le> dim then can_extend p dim = Inr False
                   else can_extend p dim = Inr False
                        \<or> (\<exists>c. create_child p dim = Inr c \<and> in_range d (transition_sequence c))))
                 (get_legal_next_dimensions (transition_sequence p)))
            (current_level st)"
    unfolding list_all_iff by blast
qed

theorem frontier_in_range_witness:
  "\<exists>st p. bfs_after memory_18gb 2 2 = Inr st \<and> current_level st = [p]
      \<and> transition_sequence p = [0, 1]
      \<and> get_legal_next_dimensions (transition_sequence p) = [0, 1, 2]
      \<and> in_range 2 (transition_sequence p) \<and> can_extend p 2 = Inr False"
proof -
  have c: "map_sum id (\<lambda>st. map transition_sequence (current_level st)) (bfs_after memory_18gb 2 2)
             = Inr [[0, 1]]" by code_simp
  have q: "\<forall>e. \<not> quota_error memory_18gb e" by (simp add: quota_error_def memory_18gb_def)
  note T = frontier_in_range[of 2 memory_18gb 2]
  from T q obtain st where st: "bfs_after memory_18gb 2 2 = Inr st" by auto
  from T st have all: "list_all (\<lambda>p. in_range 2 (transition_sequence p)
             \<and> list_all (\<lambda>dim.
                  (if dim < 0 \<or> 2 \<le> dim then can_extend p dim = Inr False
                   else can_extend p dim = Inr False
                        \<or> (\<exists>c. create_child p dim = Inr c \<and> in_range 2 (transition_sequence c))))
                 (get_legal_next_dimensions (transition_sequence p)))
            (current_level st)" by simp
  from c st obtain p where p: "current_level st = [p]" "transition_sequence p = [0, 1]"
    by (cases "current_level st") auto
  have l: "get_legal_next_dimensions [0, 1] = [0, 1, 2]" by code_simp
  from all p l have "in_range 2 (transition_sequence p)" "can_extend p 2 = Inr False"
    by simp_all
  with st p l show ?thesis by simp
qed

section \<open>The flood fill\<close>

lemma free_edges_D:
  "(u, v) \<in> free_edges p \<Longrightarrow>
   u \<in> unmarked_vertices (vertices_bitmap p) \<and> v \<in> unmarked_vertices (vertices_bitmap p)"
  by (simp add: free_edges_def)


lemma reachable_free_closed:
  assumes closed: "\<And>u v. u \<in> V \<Longrightarrow> (u, v) \<in> free_edges p \<Longrightarrow> v \<in> V"
    and start: "start \<in> unmarked_vertices (vertices_bitmap p) \<Longrightarrow> start \<in> V"
  shows "reachable_free p start \<subseteq> V"
proof
  fix v assume "v \<in> reachable_free p start"
  then have v: "v \<in> unmarked_vertices (vertices_bitmap p)" and r: "(start, v) \<in> (free_edges p)\<^sup>*"
    by (simp_all add: reachable_free_def)
  have "start \<in> unmarked_vertices (vertices_bitmap p)"
    using r v by (cases rule: converse_rtranclE) (auto dest: free_edges_D)
  then have "start \<in> V" by (rule start)
  with r show "v \<in> V" by (induction rule: rtrancl_induct) (auto intro: closed)
qed

lemma reachable_free_marked:
  assumes "start \<notin> unmarked_vertices (vertices_bitmap p)"
  shows "reachable_free p start = {}"
proof -
  have "reachable_free p start \<subseteq> {}"
    by (rule reachable_free_closed) (use assms in simp_all)
  then show ?thesis by simp
qed



lemma snake_node_current_vertex:
  assumes "is_SnakeNode p"
  shows "compute_current_vertex (transition_sequence p) = Inr (last (path (transition_sequence p)))"
    "0 \<le> last (path (transition_sequence p))"
    "last (path (transition_sequence p)) < 2 ^ nat (dimension p)"
    "last (path (transition_sequence p)) \<notin> unmarked_vertices (vertices_bitmap p)"
proof -
  let ?ts = "transition_sequence p" and ?d = "dimension p"
  let ?cur = "last (path ?ts)"
  have p: "SnakeNode ?ts ?d = Inr p" using assms by (rule is_SnakeNode_D)
  note D = SnakeNode_Inr_D[OF p] and F = SnakeNode_fields(5)[OF p]
  show "compute_current_vertex ?ts = Inr ?cur" by (rule compute_current_vertex_ok[OF D(2)])
  from path_range[OF D] last_path_in[of ?ts] show r: "0 \<le> ?cur" "?cur < 2 ^ nat ?d" by blast+
  have "?cur \<in> marked_set ?ts" using last_path_in[of ?ts] by (simp add: marked_set_def)
  with F r have "marked (vertices_bitmap p) ?cur" by blast
  then show "?cur \<notin> unmarked_vertices (vertices_bitmap p)" by (simp add: unmarked_vertices_def)
qed

section \<open>Properties of the fitness evaluator\<close>



text \<open>
  The current vertex of a constructed node is marked, so it is not a vertex of the free
  subgraph: no free vertex is reachable from it, the flood fill returns the empty set, and
  the count is the free-vertex count of the node.
\<close>

lemma count_unreachable_is_fitness:
  assumes "is_SnakeNode p"
  shows "count_unreachable_vertices (AdvancedFitnessEvaluator p) = Inr (fitness p)"
proof -
  let ?self = "AdvancedFitnessEvaluator p"
  let ?cur = "last (path (transition_sequence p))"
  note C = snake_node_current_vertex[OF assms]
  have m: "is_marked (ev_node ?self) ?cur = Inr True"
  proof -
    have p: "SnakeNode (transition_sequence p) (dimension p) = Inr p"
      using assms by (rule is_SnakeNode_D)
    note F = SnakeNode_fields(3)[OF p]
    have ok: "bm_ok (vertices_bitmap p)" using F by (simp add: bm_for_def)
    have "marked (vertices_bitmap p) ?cur"
      using C(2,3,4) bm_for_nv[OF F] by (simp add: unmarked_vertices_def)
    then show ?thesis
      using get_bit_ok[OF ok C(2)] C(3) bm_for_nv[OF F]
      by (simp add: is_marked_def AdvancedFitnessEvaluator_def)
  qed
  have "flood_fill_loop ?self {} [?cur] = flood_fill_loop ?self {} []"
    using m by (subst flood_fill_loop.simps) simp
  also have "\<dots> = Inr {}" by (subst flood_fill_loop.simps) simp
  finally have "flood_fill_reachable ?self ?cur = Inr {}" by (simp add: flood_fill_reachable_def)
  then show ?thesis
    using C(1)
    by (simp add: count_unreachable_vertices_def count_unmarked_vertices_def
        AdvancedFitnessEvaluator_def)
qed

section \<open>The search from a seed\<close>

text \<open>
  A run of the loop that comes back to the state it started from, by \<open>continue\<close>, never
  leaves the loop.
\<close>

lemma for_each_skip:
  "(\<And>x. x \<in> set xs \<Longrightarrow> body x s = Inr s) \<Longrightarrow> for_each xs body s = Inr s"
  by (induction xs) simp_all

lemma seed_loop_stuck:
  assumes lv: "seed_level scaled mm sl d s = Inr (Next s)"
    and ne: "current_level s \<noteq> []" and lc: "level_count s < ml"
  shows "seed_loop scaled mm sl d ml s = None"
proof (rule ccontr)
  assume "seed_loop scaled mm sl d ml s \<noteq> None"
  then obtain y where y: "seed_loop scaled mm sl d ml s = Some y" by auto
  have "(scaled, mm, sl, d, ml, s) \<noteq> (scaled, mm, sl, d, ml, s)"
  proof (rule seed_loop.raw_induct[where
        P = "\<lambda>sc m l dd mx st r. (sc, m, l, dd, mx, st) \<noteq> (scaled, mm, sl, d, ml, s)", OF _ y],
      goal_cases)
    case (1 loop sc m l dd mx st r)
    show ?case
    proof
      assume eq: "(sc, m, l, dd, mx, st) = (scaled, mm, sl, d, ml, s)"
      with 1(2) lv ne lc have "loop scaled mm sl d ml s = Some r" by simp
      from 1(1)[OF this] show False by simp
    qed
  qed
  then show False by simp
qed

lemma seed_try_dim_skip:
  assumes "SnakeNode ts d = Inr p" "d \<le> x \<or> x < 0 \<or> x \<in> set ts"
  shows "seed_try_dim d p x s = Inr s"
  using assms(2) can_extend_iff[OF assms(1), of x]
  by (auto simp: seed_try_dim_def is_valid_extension_def)

lemma seed_try_dim_extend:
  assumes p: "SnakeNode ts d = Inr p" and x: "0 \<le> x" "x < d" "x \<notin> set ts"
    and c: "SnakeNode (ts @ [x]) d = Inr c"
  shows "seed_try_dim d p x s =
     Inr (if get_length c > max_length s
          then s\<lparr>next_level := next_level s @ [c],
                 total_nodes_explored := total_nodes_explored s + 1,
                 max_length := get_length c, best_snake := Some c, no_improvement_count := 0\<rparr>
          else s\<lparr>next_level := next_level s @ [c],
                 total_nodes_explored := total_nodes_explored s + 1,
                 no_improvement_count := no_improvement_count s + 1\<rparr>)"
proof -
  from create_child_ok[OF p x] c have cc: "create_child p x = Inr c" by auto
  have "can_extend p x = Inr True" using can_extend_iff[OF p, of x] x by simp
  then show ?thesis using cc x by (simp add: seed_try_dim_def is_valid_extension_def Let_def)
qed

lemma seed_expand_node_stuck:
  assumes p: "SnakeNode ts d = Inr p"
    and all: "\<And>x. x \<in> set (with_new_dim (get_legal_next_dimensions ts) d) \<Longrightarrow>
                d \<le> x \<or> x < 0 \<or> x \<in> set ts"
  shows "seed_expand_node d p s = Inr s"
  unfolding seed_expand_node_def Let_def SnakeNode_fields(1)[OF p]
  by (rule for_each_skip) (rule seed_try_dim_skip[OF p all])

lemma seed_level_stuck:
  assumes "for_each (current_level s) (seed_expand_node d) (s\<lparr>next_level := []\<rparr>)
             = Inr (s\<lparr>next_level := []\<rparr>)"
    and "14 \<le> d" "best_snake s = Some b" "get_length b \<le> 10" "level_count s \<le> 100"
  shows "seed_level scaled mm sl d s = Inr (Next (s\<lparr>next_level := []\<rparr>))"
  using assms by (simp add: seed_level_def backtrack_def)


lemma legal_dims_12: "with_new_dim (get_legal_next_dimensions [12]) 14 = [12, 13]"
  by code_simp

lemma legal_dims_12_13: "with_new_dim (get_legal_next_dimensions [12, 13]) 14 = [12, 13, 14]"
  by code_simp

lemma viable_nodes_12:
  assumes seed: "SnakeNode [12] 14 = Inr seed"
  shows "viable_nodes_of scaled seed 14 = Inr [seed]"
proof -
  note F = SnakeNode_fields(1)[OF seed]
  have i: "initial_nodes_of scaled seed 14 = Inr [seed]"
    using F by (simp add: initial_nodes_of_def get_length_def)
  have v: "viable_step 14 seed [] = Inr [seed]"
    using F by (simp add: viable_step_def legal_dims_12 is_valid_extension_def
        can_extend_iff[OF seed])
  show ?thesis using i v by (simp add: viable_nodes_of_def)
qed

lemma first_seed_level:
  assumes seed: "SnakeNode [12] 14 = Inr seed" and child: "SnakeNode [12, 13] 14 = Inr child"
    and mem: "\<not> memory_usage_exceeds mm [child]"
  shows "seed_level scaled mm 1 14
           \<lparr>current_level = [seed], next_level = [], best_snake = Some seed, max_length = 1,
            level_count = 0, total_nodes_explored = 0, no_improvement_count = 0\<rparr>
         = Inr (Next \<lparr>current_level = [child], next_level = [child], best_snake = Some child,
                       max_length = 2, level_count = 1, total_nodes_explored = 1,
                       no_improvement_count = 0\<rparr>)"
proof -
  let ?s0 = "\<lparr>current_level = [seed], next_level = [], best_snake = Some seed, max_length = 1,
            level_count = 0, total_nodes_explored = 0, no_improvement_count = 0\<rparr>"
  let ?s1 = "\<lparr>current_level = [seed], next_level = [child], best_snake = Some child,
            max_length = 2, level_count = 0, total_nodes_explored = 1,
            no_improvement_count = 0\<rparr>"
  note F = SnakeNode_fields(1)[OF seed]
  have lc: "get_length child = 2" using SnakeNode_fields(1)[OF child] by (simp add: get_length_def)
  have a: "seed_try_dim 14 seed 12 ?s0 = Inr ?s0" by (rule seed_try_dim_skip[OF seed]) simp
  have c': "SnakeNode ([12] @ [13]) 14 = Inr child" using child by simp
  have b: "seed_try_dim 14 seed 13 ?s0 = Inr ?s1"
    using seed_try_dim_extend[OF seed _ _ _ c', of ?s0] lc by simp
  have "seed_expand_node 14 seed ?s0 = Inr ?s1"
    using a b F by (simp add: seed_expand_node_def legal_dims_12)
  then have fe: "for_each (current_level ?s0) (seed_expand_node 14) (?s0\<lparr>next_level := []\<rparr>)
                   = Inr ?s1" by simp
  have adv: "seed_advance mm 1 14 ?s1
               = Inr (Next \<lparr>current_level = [child], next_level = [child], best_snake = Some child,
                       max_length = 2, level_count = 1, total_nodes_explored = 1,
                       no_improvement_count = 0\<rparr>)"
    using mem by (simp add: seed_advance_def break_if_exhausted_def)
  show ?thesis unfolding seed_level_def using fe adv by simp
qed

lemma stuck_seed_level:
  assumes child: "SnakeNode [12, 13] 14 = Inr child" and lc: "level_count s \<le> 100"
    and cl: "current_level s = [child]" and b: "best_snake s = Some child"
  shows "seed_level scaled mm sl 14 s = Inr (Next (s\<lparr>next_level := []\<rparr>))"
proof -
  have "seed_expand_node 14 child t = Inr t" for t
    by (rule seed_expand_node_stuck[OF child]) (auto simp: legal_dims_12_13)
  then have fe: "for_each (current_level s) (seed_expand_node 14) (s\<lparr>next_level := []\<rparr>)
             = Inr (s\<lparr>next_level := []\<rparr>)" using cl by simp
  have l: "get_length child \<le> 10" using SnakeNode_fields(1)[OF child] by (simp add: get_length_def)
  show ?thesis by (rule seed_level_stuck[OF fe _ b l lc]) simp
qed

lemma seed_search_12_diverges:
  assumes seed: "SnakeNode [12] 14 = Inr seed" and child: "SnakeNode [12, 13] 14 = Inr child"
    and mem: "\<not> memory_usage_exceeds mm [child]" and ml: "1 < max_levels"
  shows "pruned_bfs_search_from_seed scaled mm seed 14 max_levels min_extension = None"
proof -
  let ?s0 = "\<lparr>current_level = [seed], next_level = [], best_snake = Some seed, max_length = 1,
            level_count = 0, total_nodes_explored = 0, no_improvement_count = 0\<rparr>"
  let ?s1 = "\<lparr>current_level = [child], next_level = [child], best_snake = Some child,
            max_length = 2, level_count = 1, total_nodes_explored = 1,
            no_improvement_count = 0\<rparr>"
  let ?s2 = "\<lparr>current_level = [child], next_level = [], best_snake = Some child,
            max_length = 2, level_count = 1, total_nodes_explored = 1,
            no_improvement_count = 0\<rparr>"
  have l12: "seed_level scaled mm 1 14 ?s1 = Inr (Next ?s2)"
    using stuck_seed_level[OF child, of ?s1 scaled mm 1] by simp
  have l22: "seed_level scaled mm 1 14 ?s2 = Inr (Next ?s2)"
    using stuck_seed_level[OF child, of ?s2 scaled mm 1] by simp
  have "seed_loop scaled mm 1 14 max_levels ?s2 = None"
    by (rule seed_loop_stuck[OF l22]) (use ml in simp_all)
  then have "seed_loop scaled mm 1 14 max_levels ?s1 = None"
    using l12 ml by (subst seed_loop.simps) simp
  then have "seed_loop scaled mm 1 14 max_levels ?s0 = None"
    using first_seed_level[OF seed child mem, of scaled] ml by (subst seed_loop.simps) simp
  then show ?thesis
    using SnakeNode_fields(1,2)[OF seed] viable_nodes_12[OF seed, of scaled]
    by (simp add: pruned_bfs_search_from_seed_def get_length_def)
qed

lemma memory_36gb_not_exceeded:
  assumes child: "SnakeNode [12, 13] 14 = Inr child"
  shows "\<not> memory_usage_exceeds memory_36gb [child]"
proof -
  note F = SnakeNode_fields(1,3)[OF child]
  let ?b = "vertices_bitmap child"
  from F(2) have ok: "bm_ok ?b" and d: "bm_dimension ?b = 14" by (simp_all add: bm_for_def)
  from ok d have nv: "num_vertices ?b = 2 ^ 14" by (simp add: bm_ok_def)
  with ok have nw: "num_words ?b = 256" by (simp add: bm_ok_def)
  with ok have len: "length (bitmap ?b) = 256" by (simp add: bm_ok_def)
  show ?thesis
    using F(1) nw len
    by (simp add: memory_usage_exceeds_def estimate_node_size_def memory_36gb_def)
qed

text \<open>
  Claim C6 does not hold of the code: \<open>prime_search([12], 14)\<close> with the default memory
  limit never returns. The seed \<open>[12]\<close> is a snake of dimension 13, so the seed node is
  built in dimension 14, and \<open>pruned_bfs_search_from_seed\<close> finds the extension
  \<open>[12, 13]\<close> at the first level. At the next level no child can be generated; the
  dimension is at least 14, the best snake is not longer than 10, so there is no
  backtracking, and \<open>level_count\<close> is 1, so the iteration ends with \<open>continue\<close> and
  leaves \<open>current_level\<close> and \<open>level_count\<close> as they were. The loop repeats this
  iteration for ever: \<open>pruned_bfs_search_from_seed\<close> does not return the extension it
  has found, and \<open>prime_search\<close> returns no sequence.
\<close>

theorem prime_search_diverges:
  "\<exists>seed. SnakeNode [12] 14 = Inr seed
      \<and> pruned_bfs_search_from_seed scaled memory_36gb seed 14 200000 1 = None
      \<and> prime_search \<lparr>memory_limit = memory_18gb, search_memory = memory_36gb,
                        scaled_length = scaled\<rparr> [12] 14 = None"
proof -
  obtain seed where seed: "SnakeNode [12] 14 = Inr seed"
    using SnakeNode_ok[of 14 "[12]"] by (auto simp: in_range_def)
  obtain child where child: "SnakeNode [12, 13] 14 = Inr child"
    using SnakeNode_ok[of 14 "[12, 13]"] by (auto simp: in_range_def)
  have s: "pruned_bfs_search_from_seed scaled memory_36gb seed 14 200000 1 = None"
    by (rule seed_search_12_diverges[OF seed child memory_36gb_not_exceeded[OF child]]) simp
  then have "prime_loop \<lparr>memory_limit = memory_18gb, search_memory = memory_36gb,
                   scaled_length = scaled\<rparr> 14 [12] 13 = None"
    using seed by (subst prime_loop.simps) simp
  then have "prime_search \<lparr>memory_limit = memory_18gb, search_memory = memory_36gb,
                   scaled_length = scaled\<rparr> [12] 14 = None"
    by (simp add: prime_search_def detect_dimension_def)
  with seed s show ?thesis by blast
qed
end
